theory Spec2Isabelle
  imports Main "HOL-Library.Sublist" "HOL-Library.AList" "HOL-Library.Char_ord"
    "HOL-Library.List_Lexorder"
begin

section \<open>JavaScript strings\<close>

text \<open>
  A JavaScript string is modelled as a \<^typ>\<open>string\<close>, a list of code units (restricted to
  the range of \<^typ>\<open>char\<close>). The built-in string methods used by the sources are
  written out below, following ECMA-262.
\<close>

definition startsWith :: "string \<Rightarrow> string \<Rightarrow> bool" where
  "startsWith s p = (take (length p) s = p)"

definition endsWith :: "string \<Rightarrow> string \<Rightarrow> bool" where
  "endsWith s p = (length p \<le> length s \<and> drop (length s - length p) s = p)"

text \<open>\<open>s.indexOf(sep)\<close>: the position of the first occurrence, \<open>None\<close> for \<open>-1\<close>.\<close>

fun indexOf :: "string \<Rightarrow> string \<Rightarrow> nat option" where
  "indexOf [] sep = (if sep = [] then Some 0 else None)"
| "indexOf (c # cs) sep =
     (if startsWith (c # cs) sep then Some 0 else map_option Suc (indexOf cs sep))"

definition includes_str :: "string \<Rightarrow> string \<Rightarrow> bool" where
  "includes_str s sub = (indexOf s sub \<noteq> None)"

lemma indexOf_bound: "indexOf s sep = Some j \<Longrightarrow> j + length sep \<le> length s"
proof (induction s arbitrary: j)
  case Nil
  then show ?case by (simp split: if_splits)
next
  case (Cons c cs)
  show ?case
  proof (cases "startsWith (c # cs) sep")
    case True
    then have "length (take (length sep) (c # cs)) = length sep"
      by (simp add: startsWith_def)
    then have "length sep \<le> length (c # cs)"
      by simp
    with True Cons.prems show ?thesis by simp
  next
    case False
    with Cons.prems obtain k where "indexOf cs sep = Some k" "j = Suc k" by auto
    with Cons.IH show ?thesis by simp
  qed
qed

text \<open>
  \<open>s.split(sep)\<close> for a string separator: cut at every occurrence of \<open>sep\<close>, searching
  again after the end of the previous one; the empty separator cuts between code units.
\<close>

function js_split :: "string \<Rightarrow> string \<Rightarrow> string list" where
  "js_split s sep =
     (if sep = [] then map (\<lambda>c. [c]) s
      else (case indexOf s sep of
              None \<Rightarrow> [s]
            | Some j \<Rightarrow> take j s # js_split (drop (j + length sep) s) sep))"
  by pat_completeness auto
termination
proof (relation "measure (\<lambda>(s, sep). length s)")
  show "wf (measure (\<lambda>(s, sep). length s))" by simp
next
  fix s sep :: string and j
  assume "sep \<noteq> []" and "indexOf s sep = Some j"
  then have "j + length sep \<le> length s" and "0 < length sep"
    using indexOf_bound by auto
  then have "length s - (j + length sep) < length s"
    by arith
  then show "((drop (j + length sep) s, sep), (s, sep)) \<in> measure (\<lambda>(s, sep). length s)"
    by simp
qed

declare js_split.simps [simp del]

text \<open>\<open>parts.join(sep)\<close>.\<close>

fun js_join :: "string list \<Rightarrow> string \<Rightarrow> string" where
  "js_join [] sep = []"
| "js_join [x] sep = x"
| "js_join (x # y # ys) sep = x @ sep @ js_join (y # ys) sep"

text \<open>\<open>parts.filter(Boolean)\<close> on a list of strings: the empty string is the only falsy one.\<close>

definition filter_Boolean :: "string list \<Rightarrow> string list" where
  "filter_Boolean parts = filter (\<lambda>p. p \<noteq> []) parts"

section \<open>The virtual file system: paths\<close>

text \<open>\<open>path.replace(/\/+/g, "/")\<close>: every maximal run of slashes becomes one slash.\<close>

function collapse_slashes :: "string \<Rightarrow> string" where
  "collapse_slashes [] = []"
| "collapse_slashes (c # cs) =
     (if c = CHR ''/'' then CHR ''/'' # collapse_slashes (dropWhile (\<lambda>x. x = CHR ''/'') cs)
      else c # collapse_slashes cs)"
  by pat_completeness auto
termination
  by (relation "measure length") (auto simp: length_dropWhile_le le_imp_less_Suc)

definition normalizePath :: "string \<Rightarrow> string" where
  "normalizePath path =
     (let path1 = (if \<not> startsWith path ''/'' then ''/'' @ path else path);
          path2 = (if path1 \<noteq> ''/'' \<and> endsWith path1 ''/'' then butlast path1 else path1)
      in collapse_slashes path2)"

text \<open>
  \<open>getParentPath\<close> and \<open>getFileName\<close>: \<open>parts.pop()\<close> drops the last part
  (\<open>split\<close> never returns an empty array), \<open>parts[parts.length - 1]\<close> reads it.
\<close>

definition getParentPath :: "string \<Rightarrow> string" where
  "getParentPath path =
     (let normalized = normalizePath path in
      if normalized = ''/'' then ''/''
      else (let parts = butlast (js_split normalized ''/'') in
            if length parts = 1 then ''/'' else js_join parts ''/''))"

definition getFileName :: "string \<Rightarrow> string" where
  "getFileName path =
     (let normalized = normalizePath path in
      if normalized = ''/'' then ''/''
      else last (js_split normalized ''/''))"

section \<open>The virtual file system: nodes and the two indices\<close>

text \<open>
  \<open>FileNode\<close> objects are shared between the flat table \<open>files\<close> and the \<open>children\<close>
  maps of their parents, and are mutated in place. The model therefore keeps an object
  store: \<open>heap\<close> maps an address to the object living there, \<open>fresh\<close> is the next
  address that \<open>new\<close> hands out. A \<open>Map<string, FileNode>\<close> of children is an association
  list in insertion order (\<open>AList.update\<close> is \<open>Map.set\<close>, \<open>AList.delete\<close> is
  \<open>Map.delete\<close>); the flat table is a map from paths to addresses (no modelled
  operation iterates over it).
\<close>

type_synonym addr = nat

datatype node_type = File | Directory

record FileNode =
  type :: node_type
  name :: string
  path :: string
  content :: "string option"
  children :: "(string \<times> addr) list option"

record VirtualFileSystem =
  heap :: "addr \<Rightarrow> FileNode"
  fresh :: addr
  files :: "string \<rightharpoonup> addr"
  root :: addr

text \<open>
  What can go wrong at run time: a \<open>TypeError\<close> when \<open>children!\<close> is used on a node
  without a children map, a \<open>SyntaxError\<close> from \<open>new RegExp\<close>, and \<open>OutOfFuel\<close> when a
  recursion is deeper than the budget the model was given.
\<close>

datatype fault = TypeError | SyntaxError | OutOfFuel

text \<open>A \<open>for (const x of xs) { ... }\<close> loop over a snapshot of the entries.\<close>

fun for_of :: "('a \<Rightarrow> 's \<Rightarrow> fault + 's) \<Rightarrow> 'a list \<Rightarrow> 's \<Rightarrow> fault + 's" where
  "for_of body [] s = Inr s"
| "for_of body (x # xs) s =
     (case body x s of Inl e \<Rightarrow> Inl e | Inr s' \<Rightarrow> for_of body xs s')"

definition empty_node :: FileNode where
  "empty_node = \<lparr>type = File, name = [], path = [], content = None, children = None\<rparr>"

definition root_node :: FileNode where
  "root_node = \<lparr>type = Directory, name = ''/'', path = ''/'', content = None,
                 children = Some []\<rparr>"

text \<open>The constructor.\<close>

definition new_vfs :: VirtualFileSystem where
  "new_vfs = \<lparr>heap = (\<lambda>_. empty_node)(0 := root_node), fresh = 1,
              files = [''/'' \<mapsto> 0], root = 0\<rparr>"

text \<open>\<open>new\<close>: store an object at the next free address.\<close>

definition alloc :: "FileNode \<Rightarrow> VirtualFileSystem \<Rightarrow> addr \<times> VirtualFileSystem" where
  "alloc node s = (fresh s, s\<lparr>heap := (heap s)(fresh s := node), fresh := Suc (fresh s)\<rparr>)"

text \<open>\<open>parent.children!.set(k, node)\<close> and \<open>parent.children!.delete(k)\<close>.\<close>

definition children_set :: "addr \<Rightarrow> string \<Rightarrow> addr \<Rightarrow> VirtualFileSystem \<Rightarrow> fault + VirtualFileSystem" where
  "children_set parent k node s =
     (case children (heap s parent) of
        None \<Rightarrow> Inl TypeError
      | Some cs \<Rightarrow>
          Inr (s\<lparr>heap := (heap s)(parent := (heap s parent)\<lparr>children := Some (AList.update k node cs)\<rparr>)\<rparr>))"

definition children_delete :: "addr \<Rightarrow> string \<Rightarrow> VirtualFileSystem \<Rightarrow> fault + VirtualFileSystem" where
  "children_delete parent k s =
     (case children (heap s parent) of
        None \<Rightarrow> Inl TypeError
      | Some cs \<Rightarrow>
          Inr (s\<lparr>heap := (heap s)(parent := (heap s parent)\<lparr>children := Some (AList.delete k cs)\<rparr>)\<rparr>))"

definition exists :: "VirtualFileSystem \<Rightarrow> string \<Rightarrow> bool" where
  "exists s path0 = (files s (normalizePath path0) \<noteq> None)"

definition getNode :: "VirtualFileSystem \<Rightarrow> string \<Rightarrow> addr option" where
  "getNode s path0 = files s (normalizePath path0)"

definition getParentNode :: "VirtualFileSystem \<Rightarrow> string \<Rightarrow> addr option" where
  "getParentNode s path0 = files s (getParentPath path0)"

definition createDirectory ::
  "string \<Rightarrow> VirtualFileSystem \<Rightarrow> fault + (addr option \<times> VirtualFileSystem)" where
  "createDirectory path0 s =
     (let normalized = normalizePath path0 in
      if files s normalized \<noteq> None then Inr (None, s)
      else (case getParentNode s normalized of
              None \<Rightarrow> Inr (None, s)
            | Some parent \<Rightarrow>
                if type (heap s parent) \<noteq> Directory then Inr (None, s)
                else (let dirName = getFileName normalized;
                          (directory, s1) = alloc \<lparr>type = Directory, name = dirName,
                              path = normalized, content = None, children = Some []\<rparr> s;
                          s2 = s1\<lparr>files := (files s1)(normalized \<mapsto> directory)\<rparr>
                      in (case children_set parent dirName directory s2 of
                            Inl e \<Rightarrow> Inl e
                          | Inr s3 \<Rightarrow> Inr (Some directory, s3)))))"

text \<open>
  The loop that creates the missing ancestors, shared by \<open>createFile\<close>, \<open>rename\<close> and
  \<open>deserialize\<close>: \<open>currentPath += "/" + part; if (!this.exists(currentPath))
  this.createDirectory(currentPath)\<close>.
\<close>

fun create_parents :: "string list \<Rightarrow> string \<Rightarrow> VirtualFileSystem \<Rightarrow> fault + VirtualFileSystem" where
  "create_parents [] currentPath s = Inr s"
| "create_parents (part # parts) currentPath s =
     (let currentPath' = currentPath @ ''/'' @ part in
      if \<not> exists s currentPath' then
        (case createDirectory currentPath' s of
           Inl e \<Rightarrow> Inl e
         | Inr (_, s') \<Rightarrow> create_parents parts currentPath' s')
      else create_parents parts currentPath' s)"

definition createFile ::
  "string \<Rightarrow> string \<Rightarrow> VirtualFileSystem \<Rightarrow> fault + (addr option \<times> VirtualFileSystem)" where
  "createFile path0 content0 s =
     (let normalized = normalizePath path0 in
      if files s normalized \<noteq> None then Inr (None, s)
      else (let parts = filter_Boolean (js_split normalized ''/'') in
            case create_parents (butlast parts) [] s of
              Inl e \<Rightarrow> Inl e
            | Inr sa \<Rightarrow>
               (case getParentNode sa normalized of
                  None \<Rightarrow> Inr (None, sa)
                | Some parent \<Rightarrow>
                    if type (heap sa parent) \<noteq> Directory then Inr (None, sa)
                    else (let fileName = getFileName normalized;
                              (file, s1) = alloc \<lparr>type = File, name = fileName,
                                  path = normalized, content = Some content0, children = None\<rparr> sa;
                              s2 = s1\<lparr>files := (files s1)(normalized \<mapsto> file)\<rparr>
                          in (case children_set parent fileName file s2 of
                                Inl e \<Rightarrow> Inl e
                              | Inr s3 \<Rightarrow> Inr (Some file, s3))))))"

text \<open>\<open>file.content || ""\<close>: an absent content (and the empty one) reads as the empty string.\<close>

definition content_or_empty :: "FileNode \<Rightarrow> string" where
  "content_or_empty node = (case content node of None \<Rightarrow> [] | Some c \<Rightarrow> c)"

definition readFile :: "VirtualFileSystem \<Rightarrow> string \<Rightarrow> string option" where
  "readFile s path0 =
     (case files s (normalizePath path0) of
        None \<Rightarrow> None
      | Some file \<Rightarrow> if type (heap s file) \<noteq> File then None
                     else Some (content_or_empty (heap s file)))"

definition updateFile :: "string \<Rightarrow> string \<Rightarrow> VirtualFileSystem \<Rightarrow> bool \<times> VirtualFileSystem" where
  "updateFile path0 content0 s =
     (case files s (normalizePath path0) of
        None \<Rightarrow> (False, s)
      | Some file \<Rightarrow>
          if type (heap s file) \<noteq> File then (False, s)
          else (True, s\<lparr>heap := (heap s)(file := (heap s file)\<lparr>content := Some content0\<rparr>)\<rparr>))"

text \<open>
  \<open>deleteFile\<close> recurses through \<open>this.deleteFile(child.path)\<close> while it iterates
  over \<open>file.children\<close>, the very map the recursive calls delete from. A \<open>Map\<close>
  iterator is live: an entry deleted before the iterator reaches it is skipped. Nothing
  is added to a children map during \<open>deleteFile\<close>, so the loop over the live map is the
  loop over the snapshot that skips the entries no longer present. The first argument
  bounds the depth of the recursion.
\<close>

fun deleteFile :: "nat \<Rightarrow> string \<Rightarrow> VirtualFileSystem \<Rightarrow> fault + (bool \<times> VirtualFileSystem)" where
  "deleteFile 0 path0 s = Inl OutOfFuel"
| "deleteFile (Suc n) path0 s =
     (let normalized = normalizePath path0 in
      case files s normalized of
        None \<Rightarrow> Inr (False, s)
      | Some file \<Rightarrow>
          if normalized = ''/'' then Inr (False, s)
          else (case getParentNode s normalized of
                  None \<Rightarrow> Inr (False, s)
                | Some parent \<Rightarrow>
                    if type (heap s parent) \<noteq> Directory then Inr (False, s)
                    else (case (if type (heap s file) = Directory
                                  \<and> children (heap s file) \<noteq> None
                                then for_of (\<lambda>(k, child) s'.
                                        if map_of (the (children (heap s' file))) k = Some child
                                        then map_sum id snd (deleteFile n (path (heap s' child)) s')
                                        else Inr s')
                                      (the (children (heap s file))) s
                                else Inr s) of
                            Inl e \<Rightarrow> Inl e
                          | Inr s1 \<Rightarrow>
                              (case children_delete parent (name (heap s1 file)) s1 of
                                 Inl e \<Rightarrow> Inl e
                               | Inr s2 \<Rightarrow>
                                   Inr (True, s2\<lparr>files := (files s2)(normalized := None)\<rparr>)))))"

text \<open>
  \<open>updateChildrenPaths\<close>; no children map changes while it runs, so the loop is over the
  snapshot. \<open>node.path\<close> and \<open>child.name\<close> are read from the objects as they are when
  the iteration runs. The first argument bounds the depth of the recursion.
\<close>

fun updateChildrenPaths :: "nat \<Rightarrow> addr \<Rightarrow> VirtualFileSystem \<Rightarrow> fault + VirtualFileSystem" where
  "updateChildrenPaths 0 node s = Inl OutOfFuel"
| "updateChildrenPaths (Suc n) node s =
     (if type (heap s node) = Directory \<and> children (heap s node) \<noteq> None then
        for_of (\<lambda>(k, child) s0.
            let oldChildPath = path (heap s0 child);
                s1 = s0\<lparr>heap := (heap s0)(child := (heap s0 child)
                          \<lparr>path := path (heap s0 node) @ ''/'' @ name (heap s0 child)\<rparr>)\<rparr>;
                s2 = s1\<lparr>files := (files s1)(oldChildPath := None)\<rparr>;
                s3 = s2\<lparr>files := (files s2)(path (heap s2 child) \<mapsto> child)\<rparr>
            in if type (heap s3 child) = Directory then updateChildrenPaths n child s3
               else Inr s3)
          (the (children (heap s node))) s
      else Inr s)"

definition rename ::
  "nat \<Rightarrow> string \<Rightarrow> string \<Rightarrow> VirtualFileSystem \<Rightarrow> fault + (bool \<times> VirtualFileSystem)" where
  "rename n oldPath newPath s =
     (let normalizedOld = normalizePath oldPath;
          normalizedNew = normalizePath newPath in
      if normalizedOld = ''/'' \<or> normalizedNew = ''/'' then Inr (False, s)
      else (case files s normalizedOld of
              None \<Rightarrow> Inr (False, s)
            | Some sourceNode \<Rightarrow>
      if files s normalizedNew \<noteq> None then Inr (False, s)
      else (case getParentNode s normalizedOld of
              None \<Rightarrow> Inr (False, s)
            | Some oldParent \<Rightarrow>
      if type (heap s oldParent) \<noteq> Directory then Inr (False, s)
      else (let newParentPath = getParentPath normalizedNew in
            case (if \<not> exists s newParentPath
                  then create_parents (filter_Boolean (js_split newParentPath ''/'')) [] s
                  else Inr s) of
              Inl e \<Rightarrow> Inl e
            | Inr sa \<Rightarrow>
      (case getParentNode sa normalizedNew of
         None \<Rightarrow> Inr (False, sa)
       | Some newParent \<Rightarrow>
      if type (heap sa newParent) \<noteq> Directory then Inr (False, sa)
      else (case children_delete oldParent (name (heap sa sourceNode)) sa of
              Inl e \<Rightarrow> Inl e
            | Inr sb \<Rightarrow>
      (let newName = getFileName normalizedNew;
           sc = sb\<lparr>heap := (heap sb)(sourceNode := (heap sb sourceNode)
                     \<lparr>name := newName, path := normalizedNew\<rparr>)\<rparr> in
       case children_set newParent newName sourceNode sc of
         Inl e \<Rightarrow> Inl e
       | Inr sd \<Rightarrow>
      (let se = sd\<lparr>files := (files sd)(normalizedOld := None)\<rparr>;
           sf = se\<lparr>files := (files se)(normalizedNew \<mapsto> sourceNode)\<rparr> in
       if type (heap sf sourceNode) = Directory \<and> children (heap sf sourceNode) \<noteq> None
       then (case updateChildrenPaths n sourceNode sf of
               Inl e \<Rightarrow> Inl e
             | Inr sg \<Rightarrow> Inr (True, sg))
       else Inr (True, sf)))))))))"

text \<open>
  \<open>deserialize(data)\<close>: the root object is kept and its children map emptied.
  \<open>Object.keys(data).sort()\<close> orders the keys by code units; \<open>data\<close> is given as the list
  of its entries (the keys of an object are distinct).
\<close>

definition deserialize ::
  "(string \<times> string) list \<Rightarrow> VirtualFileSystem \<Rightarrow> fault + VirtualFileSystem" where
  "deserialize data s =
     (let s1 = s\<lparr>files := Map.empty\<rparr>;
          s2 = (case children (heap s1 (root s1)) of
                  None \<Rightarrow> s1
                | Some _ \<Rightarrow> s1\<lparr>heap := (heap s1)(root s1 := (heap s1 (root s1))\<lparr>children := Some []\<rparr>)\<rparr>);
          s3 = s2\<lparr>files := (files s2)(''/'' \<mapsto> root s2)\<rparr>
      in for_of (\<lambda>(path0, content0) s'.
            case create_parents (butlast (filter_Boolean (js_split path0 ''/''))) [] s' of
              Inl e \<Rightarrow> Inl e
            | Inr s'' \<Rightarrow> map_sum id snd (createFile path0 content0 s''))
          (sort_key fst data) s3)"

definition reset :: "VirtualFileSystem \<Rightarrow> VirtualFileSystem" where
  "reset s =
     (let s1 = s\<lparr>files := Map.empty\<rparr>;
          (r, s2) = alloc root_node s1;
          s3 = s2\<lparr>root := r\<rparr>
      in s3\<lparr>files := (files s3)(''/'' \<mapsto> root s3)\<rparr>)"

section \<open>Regular expressions\<close>

text \<open>
  The fragment of ECMAScript regular expressions that the sources use: characters,
  character classes, sequence, alternation, the greedy \<open>?\<close>, the greedy \<open>*\<close> and \<open>+\<close> on a
  character class, and one capture group. \<open>rx_run r (cap, s)\<close> lists, in the order in
  which the backtracking matcher tries them, the ways \<open>r\<close> can match a prefix of \<open>s\<close>:
  each result is the capture and the text that is left.
\<close>

datatype rx =
    Eps
  | Chr char
  | Cls "char \<Rightarrow> bool"
  | Seq rx rx
  | Alt rx rx
  | Opt rx
  | StarC "char \<Rightarrow> bool"
  | PlusC "char \<Rightarrow> bool"
  | Grp rx

type_synonym mstate = "string option \<times> string"

fun rx_run :: "rx \<Rightarrow> mstate \<Rightarrow> mstate list" where
  "rx_run Eps st = [st]"
| "rx_run (Chr c) (cap, s) = (case s of [] \<Rightarrow> [] | x # xs \<Rightarrow> if x = c then [(cap, xs)] else [])"
| "rx_run (Cls P) (cap, s) = (case s of [] \<Rightarrow> [] | x # xs \<Rightarrow> if P x then [(cap, xs)] else [])"
| "rx_run (Seq a b) st = concat (map (rx_run b) (rx_run a st))"
| "rx_run (Alt a b) st = rx_run a st @ rx_run b st"
| "rx_run (Opt a) st = rx_run a st @ [st]"
| "rx_run (StarC P) (cap, s) =
     map (\<lambda>k. (cap, drop k s)) (rev [0 ..< Suc (length (takeWhile P s))])"
| "rx_run (PlusC P) (cap, s) =
     map (\<lambda>k. (cap, drop k s)) (rev [1 ..< Suc (length (takeWhile P s))])"
| "rx_run (Grp a) (cap, s) =
     map (\<lambda>(c, rest). (Some (take (length s - length rest) s), rest)) (rx_run a (cap, s))"

text \<open>
  \<open>rx_find r pre s\<close>: the leftmost match of \<open>r\<close> in \<open>s\<close>, as the text before the match,
  the matched text, group 1 and the text after the match; \<open>pre\<close> is the text already
  passed over, reversed.
\<close>

fun rx_find :: "rx \<Rightarrow> string \<Rightarrow> string \<Rightarrow> (string \<times> string \<times> string option \<times> string) option" where
  "rx_find r pre [] =
     (case rx_run r (None, []) of
        [] \<Rightarrow> None
      | (cap, rest) # _ \<Rightarrow> Some (rev pre, [], cap, rest))"
| "rx_find r pre (c # cs) =
     (case rx_run r (None, c # cs) of
        [] \<Rightarrow> rx_find r (c # pre) cs
      | (cap, rest) # _ \<Rightarrow>
          Some (rev pre, take (length (c # cs) - length rest) (c # cs), cap, rest))"

lemma rx_run_length: "(cap', rest) \<in> set (rx_run r (cap, s)) \<Longrightarrow> length rest \<le> length s"
proof (induction r arbitrary: cap s cap' rest)
  case (Seq a b)
  then obtain capm mid where "(capm, mid) \<in> set (rx_run a (cap, s))"
    and "(cap', rest) \<in> set (rx_run b (capm, mid))"
    by auto
  with Seq.IH show ?case
    by (meson le_trans)
next
  case (Alt a b)
  then show ?case by auto
next
  case (Opt a)
  then show ?case by auto
next
  case (Grp a)
  then show ?case by auto
qed (auto split: list.splits if_splits)

lemma rx_find_length:
  "rx_find r pre s = Some (before, m, cap, post) \<Longrightarrow>
     length post \<le> length s \<and> (m \<noteq> [] \<longrightarrow> length post < length s)"
proof (induction s arbitrary: pre)
  case Nil
  then obtain sts where "rx_run r (None, []) = (cap, post) # sts" and "m = []"
    by (auto split: list.splits)
  then have "(cap, post) \<in> set (rx_run r (None, []))" by simp
  then have "length post \<le> length ([] :: string)" by (rule rx_run_length)
  with \<open>m = []\<close> show ?case by simp
next
  case (Cons c cs)
  show ?case
  proof (cases "rx_run r (None, c # cs)")
    case Nil
    with Cons.prems have "rx_find r (c # pre) cs = Some (before, m, cap, post)" by simp
    from Cons.IH [OF this] show ?thesis by auto
  next
    case (Cons st sts)
    obtain cap0 rest where st: "st = (cap0, rest)" by (cases st)
    with Cons have "(cap0, rest) \<in> set (rx_run r (None, c # cs))" by simp
    then have le: "length rest \<le> length (c # cs)" by (rule rx_run_length)
    from Cons st Cons.prems have "post = rest"
      and "m = take (length (c # cs) - length rest) (c # cs)" by auto
    with le show ?thesis by auto
  qed
qed

text \<open>
  All matches of a global regular expression, from left to right, each with the text
  between the previous match and itself, and the text after the last match. The search
  resumes at the end of a match, one code unit further after an empty match.
\<close>

fun push_char :: "char \<Rightarrow> (string \<times> string \<times> string option) list \<times> string \<Rightarrow>
    (string \<times> string \<times> string option) list \<times> string" where
  "push_char c ([], rest) = ([], c # rest)"
| "push_char c ((before, m, cap) # ms, rest) = ((c # before, m, cap) # ms, rest)"

function rx_match_all :: "rx \<Rightarrow> string \<Rightarrow> (string \<times> string \<times> string option) list \<times> string" where
  "rx_match_all r s =
     (case rx_find r [] s of
        None \<Rightarrow> ([], s)
      | Some (before, m, cap, post) \<Rightarrow>
          if m \<noteq> [] then (let (ms, rest) = rx_match_all r post in ((before, m, cap) # ms, rest))
          else (case post of
                  [] \<Rightarrow> ([(before, m, cap)], [])
                | c # cs \<Rightarrow> (let (ms, rest) = push_char c (rx_match_all r cs)
                            in ((before, m, cap) # ms, rest))))"
  by pat_completeness auto
termination
proof (relation "measure (\<lambda>(r, s). length s)")
  show "wf (measure (\<lambda>(r, s). length s))" by simp
next
  fix r s x2 before y m ya cap post
  assume "rx_find r [] s = Some x2" "(before, y) = x2" "(m, ya) = y" "(cap, post) = ya" "m \<noteq> []"
  then have "rx_find r [] s = Some (before, m, cap, post)" by simp
  from rx_find_length [OF this] \<open>m \<noteq> []\<close>
  show "((r, post), (r, s)) \<in> measure (\<lambda>(r, s). length s)" by simp
next
  fix r s x2 before y m ya cap post c cs
  assume "rx_find r [] s = Some x2" "(before, y) = x2" "(m, ya) = y" "(cap, post) = ya"
    "post = c # cs"
  then have "rx_find r [] s = Some (before, m, cap, post)" by simp
  from rx_find_length [OF this] \<open>post = c # cs\<close>
  show "((r, cs), (r, s)) \<in> measure (\<lambda>(r, s). length s)" by simp
qed

declare rx_match_all.simps [simp del]

text \<open>\<open>(s.match(re) || []).length\<close> and \<open>s.replace(re, repl)\<close> for a global \<open>re\<close>.\<close>

definition match_count :: "rx \<Rightarrow> string \<Rightarrow> nat" where
  "match_count r s = length (fst (rx_match_all r s))"

definition replace_all :: "rx \<Rightarrow> string \<Rightarrow> string \<Rightarrow> string" where
  "replace_all r s repl =
     (let (ms, rest) = rx_match_all r s
      in concat (map (\<lambda>(before, m, cap). before @ repl) ms) @ rest)"

text \<open>The first capture group of every match, as a \<open>while (re.exec(s))\<close> loop collects them.\<close>

definition exec_all :: "rx \<Rightarrow> string \<Rightarrow> string list" where
  "exec_all r s = map (\<lambda>(before, m, cap). case cap of None \<Rightarrow> [] | Some g \<Rightarrow> g)
                    (fst (rx_match_all r s))"

text \<open>
  \<open>new RegExp(src)\<close> on the patterns that consist of ordinary characters and escaped
  syntax characters. \<open>None\<close> is every other pattern: a syntax error, or a pattern with
  operators, outside what \<open>replaceInFile\<close> can build (lemma \<open>regexp_of_escaped\<close>).
\<close>

definition syntax_character :: "char \<Rightarrow> bool" where
  "syntax_character c = (c \<in> set ''^$.*+?()[]{}|'' \<or> c = CHR 0x5C)"

fun regexp_of_source :: "string \<Rightarrow> rx option" where
  "regexp_of_source [] = Some Eps"
| "regexp_of_source [c] =
     (if syntax_character c then None else Some (Seq (Chr c) Eps))"
| "regexp_of_source (c # d # ds) =
     (if c = CHR 0x5C then
        (if syntax_character d then map_option (Seq (Chr d)) (regexp_of_source ds) else None)
      else if syntax_character c then None
      else map_option (Seq (Chr c)) (regexp_of_source (d # ds)))"

text \<open>\<open>oldStr.replace(/[.*+?^${}()|[\]\\]/g, "\\$&")\<close>.\<close>

definition regexp_special :: "char \<Rightarrow> bool" where
  "regexp_special c = (c \<in> set ''.*+?^${}()|[]'' \<or> c = CHR 0x5C)"

definition escapeRegExp :: "string \<Rightarrow> string" where
  "escapeRegExp s = concat (map (\<lambda>c. if regexp_special c then [CHR 0x5C, c] else [c]) s)"

section \<open>The virtual file system: text editing\<close>

text \<open>A number inside a template literal: its decimal digits.\<close>

definition digit_char :: "nat \<Rightarrow> char" where
  "digit_char d = ''0123456789'' ! d"

function show_nat :: "nat \<Rightarrow> string" where
  "show_nat n = (if n < 10 then [digit_char n] else show_nat (n div 10) @ [digit_char (n mod 10)])"
  by pat_completeness auto
termination
  by (relation "measure id") auto

declare show_nat.simps [simp del]

definition replaceInFile ::
  "string \<Rightarrow> string \<Rightarrow> string \<Rightarrow> VirtualFileSystem \<Rightarrow> fault + (string \<times> VirtualFileSystem)" where
  "replaceInFile path0 oldStr newStr s =
     (case getNode s path0 of
        None \<Rightarrow> Inr (''Error: File not found: '' @ path0, s)
      | Some file \<Rightarrow>
          if type (heap s file) \<noteq> File then Inr (''Error: Cannot edit a directory: '' @ path0, s)
          else (let content0 = (case readFile s path0 of None \<Rightarrow> [] | Some c \<Rightarrow> c) in
                if oldStr = [] \<or> \<not> includes_str content0 oldStr
                then Inr (''Error: String not found in file: \"'' @ oldStr @ ''\"'', s)
                else (case regexp_of_source (escapeRegExp oldStr) of
                        None \<Rightarrow> Inl SyntaxError
                      | Some re \<Rightarrow>
                          (let occurrences = match_count re content0;
                               updatedContent = js_join (js_split content0 oldStr) newStr;
                               (_, s') = updateFile path0 updatedContent s
                           in Inr (''Replaced '' @ show_nat occurrences
                                     @ '' occurrence(s) of the string in '' @ path0, s')))))"

section \<open>Example states\<close>

text \<open>The state an operation leaves behind (the initial one if it faulted).\<close>

definition state_after :: "fault + ('a \<times> VirtualFileSystem) \<Rightarrow> VirtualFileSystem" where
  "state_after r = (case r of Inl e \<Rightarrow> new_vfs | Inr (x, s) \<Rightarrow> s)"

text \<open>\<open>/source.txt\<close> and \<open>/dest.txt\<close>, as in the test of a rename onto an existing file.\<close>

definition fs_two_files :: VirtualFileSystem where
  "fs_two_files =
     state_after (createFile ''/dest.txt'' ''dest content''
       (state_after (createFile ''/source.txt'' ''source content'' new_vfs)))"

text \<open>The tree of the directory-rename test.\<close>

definition fs_src_tree :: VirtualFileSystem where
  "fs_src_tree =
     state_after (createFile ''/src/components/Button.tsx'' ''button content''
       (state_after (createFile ''/src/index.ts'' ''index content'' new_vfs)))"

lemmas vfs_eval =
  createFile_def createDirectory_def getParentNode_def getParentPath_def getFileName_def
  getNode_def exists_def readFile_def updateFile_def content_or_empty_def
  normalizePath_def startsWith_def endsWith_def filter_Boolean_def js_split.simps
  alloc_def children_set_def children_delete_def new_vfs_def root_node_def
  state_after_def Let_def

section \<open>Path normalisation\<close>

lemma collapse_Nil_iff [simp]: "collapse_slashes s = [] \<longleftrightarrow> s = []"
  by (cases s) auto

lemma collapse_hd: "s \<noteq> [] \<Longrightarrow> hd (collapse_slashes s) = hd s"
  by (cases s) auto

lemma collapse_not_slash_start:
  "s = [] \<or> hd s \<noteq> CHR ''/'' \<Longrightarrow> \<not> prefix ''/'' (collapse_slashes s)"
  by (cases s) auto

lemma dropWhile_slash_start:
  "dropWhile (\<lambda>x. x = CHR ''/'') cs = [] \<or> hd (dropWhile (\<lambda>x. x = CHR ''/'') cs) \<noteq> CHR ''/''"
  using hd_dropWhile [of "\<lambda>x. x = CHR ''/''" cs] by blast

lemma collapse_no_double_slash: "\<not> sublist ''//'' (collapse_slashes s)"
proof (induction s rule: collapse_slashes.induct)
  case 1
  then show ?case by simp
next
  case (2 c cs)
  show ?case
  proof (cases "c = CHR ''/''")
    case True
    have "\<not> prefix ''/'' (collapse_slashes (dropWhile (\<lambda>x. x = CHR ''/'') cs))"
      by (rule collapse_not_slash_start) (rule dropWhile_slash_start)
    with 2 True show ?thesis by (simp add: sublist_Cons_right)
  next
    case False
    with 2 show ?thesis by (simp add: sublist_Cons_right)
  qed
qed

lemma normalizePath_Cons: "\<exists>r. normalizePath p = CHR ''/'' # r"
proof -
  define path1 where "path1 = (if \<not> startsWith p ''/'' then ''/'' @ p else p)"
  define path2 where
    "path2 = (if path1 \<noteq> ''/'' \<and> endsWith path1 ''/'' then butlast path1 else path1)"
  have "\<exists>r. path1 = CHR ''/'' # r"
    unfolding path1_def by (cases p) (auto simp: startsWith_def)
  then obtain r where r: "path1 = CHR ''/'' # r" ..
  have "\<exists>r'. path2 = CHR ''/'' # r'"
    unfolding path2_def using r by (cases r) auto
  then obtain r' where "path2 = CHR ''/'' # r'" ..
  moreover have "normalizePath p = collapse_slashes path2"
    by (simp add: normalizePath_def path1_def path2_def Let_def)
  ultimately show ?thesis by simp
qed

text \<open>Two thirds of the normal form hold for every input: the leading slash and the
  absence of a double slash.\<close>

lemma normalizePath_starts_with_slash: "startsWith (normalizePath p) ''/''"
  using normalizePath_Cons [of p] by (auto simp: startsWith_def)

lemma normalizePath_no_double_slash: "\<not> sublist ''//'' (normalizePath p)"
  by (simp add: normalizePath_def Let_def collapse_no_double_slash)

lemma normalizePath_example: "normalizePath ''//folder//file.txt'' = ''/folder/file.txt''"
  by (simp add: normalizePath_def startsWith_def endsWith_def)

text \<open>
  Claim C7: for every input the output of \<open>normalizePath\<close> starts with a slash, has no
  double slash, and does not end with a slash unless it is the root. The last part
  fails: \<open>normalizePath\<close> strips one trailing slash and only then collapses the
  repeated ones, so an input that ends with two slashes keeps one. On \<open>/a//\<close> the
  result is \<open>/a/\<close>, which ends with a slash and is not the root.
\<close>

theorem normalizePath_keeps_trailing_slash:
  "normalizePath ''/a//'' = ''/a/'' \<and> endsWith (normalizePath ''/a//'') ''/''
     \<and> normalizePath ''/a//'' \<noteq> ''/''"
  by (simp add: normalizePath_def startsWith_def endsWith_def)

section \<open>Rejected operations leave the tree alone\<close>

lemma includes_str_empty: "includes_str c []"
  by (cases c) (simp_all add: includes_str_def startsWith_def)

text \<open>
  Claim C10: on an existing file, \<open>replaceInFile\<close> with the empty search string answers
  with the "String not found" message and changes nothing, although the empty string
  occurs in every content.
\<close>

theorem replaceInFile_empty_oldStr:
  assumes "getNode s path0 = Some file" and "type (heap s file) = File"
  shows "replaceInFile path0 [] newStr s = Inr (''Error: String not found in file: \"\"'', s)
         \<and> includes_str (content_or_empty (heap s file)) []"
  using assms by (simp add: replaceInFile_def includes_str_empty)

theorem replaceInFile_empty_oldStr_witness:
  "getNode fs_two_files ''/dest.txt'' = Some 2 \<and> type (heap fs_two_files 2) = File
   \<and> replaceInFile ''/dest.txt'' [] ''new'' fs_two_files
       = Inr (''Error: String not found in file: \"\"'', fs_two_files)
   \<and> readFile fs_two_files ''/dest.txt'' = Some ''dest content''"
proof -
  have a: "getNode fs_two_files ''/dest.txt'' = Some 2"
    by (simp add: fs_two_files_def vfs_eval)
  have b: "type (heap fs_two_files 2) = File"
    by (simp add: fs_two_files_def vfs_eval)
  have c: "readFile fs_two_files ''/dest.txt'' = Some ''dest content''"
    by (simp add: fs_two_files_def vfs_eval)
  from replaceInFile_empty_oldStr [OF a b, of "''new''"] a b c show ?thesis
    by blast
qed

text \<open>
  Claim C3: if either normalised path is the root, or the source is not in the tree, or
  the destination is already there, \<open>rename\<close> returns false and the state afterwards is
  the state before. (The depth budget \<open>n\<close> plays no part: the checks come first.)
\<close>

theorem rename_rejected:
  assumes "normalizePath oldPath = ''/'' \<or> normalizePath newPath = ''/''
           \<or> files s (normalizePath oldPath) = None
           \<or> files s (normalizePath newPath) \<noteq> None"
  shows "rename n oldPath newPath s = Inr (False, s)"
  using assms by (auto simp: rename_def Let_def split: option.splits)

theorem rename_rejected_witness:
  "files fs_two_files (normalizePath ''/source.txt'') \<noteq> None
   \<and> files fs_two_files (normalizePath ''/dest.txt'') \<noteq> None
   \<and> rename 3 ''/source.txt'' ''/dest.txt'' fs_two_files = Inr (False, fs_two_files)
   \<and> readFile fs_two_files ''/source.txt'' = Some ''source content''
   \<and> readFile fs_two_files ''/dest.txt'' = Some ''dest content''"
proof -
  have a: "files fs_two_files (normalizePath ''/source.txt'') \<noteq> None"
    by (simp add: fs_two_files_def vfs_eval)
  have b: "files fs_two_files (normalizePath ''/dest.txt'') \<noteq> None"
    by (simp add: fs_two_files_def vfs_eval)
  have c: "readFile fs_two_files ''/source.txt'' = Some ''source content''"
    by (simp add: fs_two_files_def vfs_eval)
  have d: "readFile fs_two_files ''/dest.txt'' = Some ''dest content''"
    by (simp add: fs_two_files_def vfs_eval)
  have "rename 3 ''/source.txt'' ''/dest.txt'' fs_two_files = Inr (False, fs_two_files)"
    using b by (intro rename_rejected) blast
  with a b c d show ?thesis by blast
qed

section \<open>Replacing every occurrence\<close>

text \<open>
  What the specification asks of \<open>replaceInFile\<close>, written without the library calls:
  scan the content from the left; where the search string starts, count it (emit the
  replacement) and continue after it; elsewhere keep the code unit and move on by one.
\<close>

function count_occurrences :: "string \<Rightarrow> string \<Rightarrow> nat" where
  "count_occurrences c old =
     (if old = [] \<or> c = [] then 0
      else if startsWith c old then Suc (count_occurrences (drop (length old) c) old)
      else count_occurrences (tl c) old)"
  by pat_completeness auto
termination
  by (relation "measure (\<lambda>(c, old). length c)") auto

function replace_occurrences :: "string \<Rightarrow> string \<Rightarrow> string \<Rightarrow> string" where
  "replace_occurrences c old new =
     (if old = [] \<or> c = [] then c
      else if startsWith c old then new @ replace_occurrences (drop (length old) c) old new
      else hd c # replace_occurrences (tl c) old new)"
  by pat_completeness auto
termination
  by (relation "measure (\<lambda>(c, old, new). length c)") auto

declare count_occurrences.simps [simp del] replace_occurrences.simps [simp del]

text \<open>The regular expression that matches exactly the text \<open>s\<close>.\<close>

fun literal_rx :: "string \<Rightarrow> rx" where
  "literal_rx [] = Eps"
| "literal_rx (c # cs) = Seq (Chr c) (literal_rx cs)"

lemma syntax_character_special: "syntax_character c = regexp_special c"
  by (auto simp: syntax_character_def regexp_special_def)

lemma regexp_of_source_plain:
  "\<not> syntax_character c \<Longrightarrow>
     regexp_of_source (c # rest) = map_option (Seq (Chr c)) (regexp_of_source rest)"
  by (cases rest) (auto simp: syntax_character_def)

lemma regexp_of_source_escaped:
  "syntax_character d \<Longrightarrow>
     regexp_of_source (CHR 0x5C # d # rest) = map_option (Seq (Chr d)) (regexp_of_source rest)"
  by simp

lemma regexp_of_escaped: "regexp_of_source (escapeRegExp s) = Some (literal_rx s)"
proof (induction s)
  case Nil
  then show ?case by (simp add: escapeRegExp_def)
next
  case (Cons c cs)
  have e: "escapeRegExp (c # cs) = (if regexp_special c then [CHR 0x5C, c] else [c]) @ escapeRegExp cs"
    by (simp add: escapeRegExp_def)
  show ?case
  proof (cases "regexp_special c")
    case True
    then have "syntax_character c" by (simp add: syntax_character_special)
    then have "regexp_of_source (CHR 0x5C # c # escapeRegExp cs)
                 = map_option (Seq (Chr c)) (regexp_of_source (escapeRegExp cs))"
      by (rule regexp_of_source_escaped)
    with True Cons.IH show ?thesis by (simp add: e)
  next
    case False
    then have "\<not> syntax_character c" by (simp add: syntax_character_special)
    then have "regexp_of_source (c # escapeRegExp cs)
                 = map_option (Seq (Chr c)) (regexp_of_source (escapeRegExp cs))"
      by (rule regexp_of_source_plain)
    with False Cons.IH show ?thesis by (simp add: e)
  qed
qed

lemma rx_run_literal:
  "rx_run (literal_rx old) (cap, s) = (if startsWith s old then [(cap, drop (length old) s)] else [])"
proof (induction old arbitrary: s)
  case Nil
  then show ?case by (simp add: startsWith_def)
next
  case (Cons c cs)
  show ?case
  proof (cases s)
    case Nil
    then show ?thesis by (simp add: startsWith_def)
  next
    case (Cons x xs)
    with Cons.IH show ?thesis by (auto simp: startsWith_def Cons)
  qed
qed

lemma rx_find_literal:
  assumes "old \<noteq> []"
  shows "rx_find (literal_rx old) pre s =
     (case indexOf s old of
        None \<Rightarrow> None
      | Some j \<Rightarrow> Some (rev pre @ take j s, old, None, drop (j + length old) s))"
proof (induction s arbitrary: pre)
  case Nil
  with assms show ?case by (simp add: rx_run_literal startsWith_def)
next
  case (Cons c cs)
  show ?case
  proof (cases "startsWith (c # cs) old")
    case True
    then have "length (take (length old) (c # cs)) = length old" by (simp add: startsWith_def)
    then have "length old \<le> length (c # cs)" by simp
    then have "take (length (c # cs) - length (drop (length old) (c # cs))) (c # cs) = old"
      using True by (simp add: startsWith_def)
    with True show ?thesis by (simp add: rx_run_literal del: take_Suc_Cons drop_Suc_Cons)
  next
    case False
    then show ?thesis
      by (simp add: rx_run_literal Cons.IH split: option.splits)
  qed
qed

lemma rx_match_all_literal_unfold:
  assumes "old \<noteq> []"
  shows "rx_match_all (literal_rx old) s =
     (case indexOf s old of
        None \<Rightarrow> ([], s)
      | Some j \<Rightarrow> (let (ms, rest) = rx_match_all (literal_rx old) (drop (j + length old) s)
                  in ((take j s, old, None) # ms, rest)))"
  using assms
  by (subst rx_match_all.simps) (simp add: rx_find_literal split: option.splits)

lemma rx_match_all_literal:
  assumes "old \<noteq> []"
  shows "map fst (fst (rx_match_all (literal_rx old) s)) @ [snd (rx_match_all (literal_rx old) s)]
          = js_split s old"
  using assms
proof (induction s old rule: js_split.induct)
  case (1 s sep)
  show ?case
  proof (cases "indexOf s sep")
    case None
    with 1 show ?thesis
      by (simp add: rx_match_all_literal_unfold js_split.simps [of s sep])
  next
    case (Some j)
    with 1 show ?thesis
      by (auto simp: rx_match_all_literal_unfold [of sep s] js_split.simps [of s sep]
          split: prod.splits)
  qed
qed

lemma match_count_literal:
  assumes "old \<noteq> []"
  shows "match_count (literal_rx old) s = length (js_split s old) - 1"
proof -
  have "length (js_split s old) = Suc (length (fst (rx_match_all (literal_rx old) s)))"
    by (simp flip: rx_match_all_literal [OF assms])
  then show ?thesis by (simp add: match_count_def)
qed

lemma js_split_not_Nil: "sep \<noteq> [] \<Longrightarrow> js_split s sep \<noteq> []"
  by (subst js_split.simps) (simp split: option.splits)

lemma js_join_Cons_Cons: "ys \<noteq> [] \<Longrightarrow> js_join ((x # a) # ys) sep = x # js_join (a # ys) sep"
  by (cases ys) simp_all

lemma js_join_Nil_Cons: "ys \<noteq> [] \<Longrightarrow> js_join ([] # ys) sep = sep @ js_join ys sep"
  by (cases ys) simp_all

lemma startsWith_indexOf: "startsWith c old \<Longrightarrow> indexOf c old = Some 0"
  by (cases c) (auto simp: startsWith_def)

lemma js_split_startsWith:
  assumes "old \<noteq> []" "startsWith c old"
  shows "js_split c old = [] # js_split (drop (length old) c) old"
  using assms by (subst js_split.simps) (simp add: startsWith_indexOf)

lemma js_split_step:
  assumes "old \<noteq> []" "\<not> startsWith (x # xs) old"
  shows "\<exists>a ys. js_split xs old = a # ys \<and> js_split (x # xs) old = (x # a) # ys"
proof (cases "indexOf xs old")
  case None
  with assms show ?thesis
    by (simp add: js_split.simps [of xs] js_split.simps [of "x # xs"])
next
  case (Some j)
  with assms show ?thesis
    by (simp add: js_split.simps [of xs] js_split.simps [of "x # xs"])
qed

lemma replace_occurrences_split:
  assumes "old \<noteq> []"
  shows "replace_occurrences c old new = js_join (js_split c old) new"
  using assms
proof (induction c old new rule: replace_occurrences.induct)
  case (1 c old new)
  show ?case
  proof (cases "c = []")
    case True
    with 1 show ?thesis
      by (simp add: replace_occurrences.simps [of "[]"] js_split.simps [of "[]"])
  next
    case False
    show ?thesis
    proof (cases "startsWith c old")
      case True
      with 1 False show ?thesis
        by (simp add: replace_occurrences.simps [of c] js_split_startsWith
            js_join_Nil_Cons js_split_not_Nil)
    next
      case nsw: False
      from False obtain x xs where c: "c = x # xs" by (cases c) auto
      with nsw 1 obtain a ys where "js_split xs old = a # ys" "js_split (x # xs) old = (x # a) # ys"
        using js_split_step by blast
      moreover have "ys \<noteq> [] \<or> ys = []" by simp
      ultimately show ?thesis
        using 1 False nsw c
        by (cases ys) (simp_all add: replace_occurrences.simps [of "x # xs"])
    qed
  qed
qed

lemma count_occurrences_split:
  assumes "old \<noteq> []"
  shows "count_occurrences c old = length (js_split c old) - 1"
  using assms
proof (induction c old rule: count_occurrences.induct)
  case (1 c old)
  show ?case
  proof (cases "c = []")
    case True
    with 1 show ?thesis
      by (simp add: count_occurrences.simps [of "[]"] js_split.simps [of "[]"])
  next
    case False
    show ?thesis
    proof (cases "startsWith c old")
      case True
      have "js_split (drop (length old) c) old \<noteq> []" using 1(3) by (rule js_split_not_Nil)
      then have "0 < length (js_split (drop (length old) c) old)" by simp
      with 1 False True show ?thesis
        by (simp add: count_occurrences.simps [of c] js_split_startsWith)
    next
      case nsw: False
      from False obtain x xs where c: "c = x # xs" by (cases c) auto
      with nsw 1 obtain a ys where "js_split xs old = a # ys" "js_split (x # xs) old = (x # a) # ys"
        using js_split_step by blast
      then show ?thesis
        using 1 False nsw c
        by (simp add: count_occurrences.simps [of "x # xs"])
    qed
  qed
qed


lemma count_occurrences_positive:
  assumes "old \<noteq> []" and "includes_str c old"
  shows "0 < count_occurrences c old"
proof -
  from assms(2) obtain j where j: "indexOf c old = Some j"
    by (auto simp: includes_str_def)
  have "js_split (drop (j + length old) c) old \<noteq> []"
    using assms(1) by (rule js_split_not_Nil)
  then have "2 \<le> length (js_split c old)"
    using assms(1) j by (subst js_split.simps) (simp add: Suc_le_eq)
  then show ?thesis
    using assms(1) by (simp add: count_occurrences_split)
qed

text \<open>The file of the \<open>replaceInFile\<close> test.\<close>

definition fs_foo :: VirtualFileSystem where
  "fs_foo = state_after (createFile ''/test.txt'' ''foo bar foo baz foo'' new_vfs)"

text \<open>
  Claim C8: on an existing file whose content contains the non-empty \<open>oldStr\<close>,
  \<open>replaceInFile\<close> replaces every non-overlapping occurrence of \<open>oldStr\<close>, taken
  literally, and reports their number. The pattern built by escaping is the literal
  one (\<open>regexp_of_escaped\<close>), the matches of the global pattern are the cuts of
  \<open>split\<close> (\<open>rx_match_all_literal\<close>), and \<open>split\<close> then \<open>join\<close> is the left-to-right
  replacement (\<open>replace_occurrences_split\<close>).
\<close>

theorem replaceInFile_replaces_all:
  assumes "getNode s path0 = Some file" and "type (heap s file) = File"
    and "oldStr \<noteq> []" and "includes_str (content_or_empty (heap s file)) oldStr"
  shows "\<exists>s'. replaceInFile path0 oldStr newStr s =
            Inr (''Replaced '' @ show_nat (count_occurrences (content_or_empty (heap s file)) oldStr)
                   @ '' occurrence(s) of the string in '' @ path0, s')
          \<and> readFile s' path0
              = Some (replace_occurrences (content_or_empty (heap s file)) oldStr newStr)
          \<and> 0 < count_occurrences (content_or_empty (heap s file)) oldStr"
proof -
  let ?c = "content_or_empty (heap s file)"
  have f: "files s (normalizePath path0) = Some file" using assms(1) by (simp add: getNode_def)
  have r: "readFile s path0 = Some ?c" using f assms(2) by (simp add: readFile_def)
  have cnt: "match_count (literal_rx oldStr) ?c = count_occurrences ?c oldStr"
    using assms(3) by (simp add: match_count_literal count_occurrences_split)
  have rep: "js_join (js_split ?c oldStr) newStr = replace_occurrences ?c oldStr newStr"
    using assms(3) by (simp add: replace_occurrences_split)
  have pos: "0 < count_occurrences ?c oldStr"
    using assms(3,4) by (rule count_occurrences_positive)
  let ?u = "replace_occurrences ?c oldStr newStr"
  let ?s' = "s\<lparr>heap := (heap s)(file := (heap s file)\<lparr>content := Some ?u\<rparr>)\<rparr>"
  have upd: "updateFile path0 ?u s = (True, ?s')"
    using f assms(2) by (simp add: updateFile_def)
  have res: "replaceInFile path0 oldStr newStr s =
      Inr (''Replaced '' @ show_nat (count_occurrences ?c oldStr)
             @ '' occurrence(s) of the string in '' @ path0, ?s')"
    using assms by (simp add: replaceInFile_def r regexp_of_escaped cnt rep upd Let_def)
  have rd: "readFile ?s' path0 = Some ?u"
    using f assms(2) by (simp add: readFile_def content_or_empty_def)
  from res rd pos show ?thesis by blast
qed

theorem replaceInFile_replaces_all_witness:
  "getNode fs_foo ''/test.txt'' = Some 1 \<and> type (heap fs_foo 1) = File
   \<and> includes_str (content_or_empty (heap fs_foo 1)) ''foo''
   \<and> (\<exists>s'. replaceInFile ''/test.txt'' ''foo'' ''hello'' fs_foo
              = Inr (''Replaced 3 occurrence(s) of the string in /test.txt'', s')
            \<and> readFile s' ''/test.txt'' = Some ''hello bar hello baz hello'')"
proof -
  have a: "getNode fs_foo ''/test.txt'' = Some 1"
    by (simp add: fs_foo_def vfs_eval)
  have b: "type (heap fs_foo 1) = File"
    by (simp add: fs_foo_def vfs_eval)
  have c: "content_or_empty (heap fs_foo 1) = ''foo bar foo baz foo''"
    by (simp add: fs_foo_def vfs_eval)
  have d: "includes_str (content_or_empty (heap fs_foo 1)) ''foo''"
    unfolding c by (simp add: includes_str_def startsWith_def)
  have e: "count_occurrences ''foo bar foo baz foo'' ''foo'' = 3"
    by (simp add: count_occurrences.simps startsWith_def)
  have f: "replace_occurrences ''foo bar foo baz foo'' ''foo'' ''hello'' = ''hello bar hello baz hello''"
    by (simp add: replace_occurrences.simps startsWith_def)
  have g: "show_nat 3 = ''3''"
    by (simp add: show_nat.simps digit_char_def)
  have h: "''foo'' \<noteq> []" by simp
  from replaceInFile_replaces_all [OF a b h d, of "''hello''", unfolded c e f g] a b d
  show ?thesis by auto
qed

section \<open>Clean paths and their segments\<close>

text \<open>
  A name is a non-empty string without a slash. \<open>path_of\<close> writes a list of names as a
  path: the root for the empty list, otherwise every name preceded by a slash. These
  are the paths in normal form; on them \<open>normalizePath\<close> is the identity and
  \<open>getParentPath\<close>, \<open>getFileName\<close> and \<open>split\<close> take the last name off, read it, and
  list the names.
\<close>

definition valid_name :: "string \<Rightarrow> bool" where
  "valid_name k = (k \<noteq> [] \<and> CHR ''/'' \<notin> set k)"

fun slash_join :: "string list \<Rightarrow> string" where
  "slash_join [] = []"
| "slash_join (k # ks) = ''/'' @ k @ slash_join ks"

definition path_of :: "string list \<Rightarrow> string" where
  "path_of ss = (if ss = [] then ''/'' else slash_join ss)"

lemma slash_join_append [simp]: "slash_join (xs @ ys) = slash_join xs @ slash_join ys"
  by (induction xs) auto

lemma indexOf_no_slash:
  "CHR ''/'' \<notin> set k \<Longrightarrow> indexOf (k @ CHR ''/'' # r) ''/'' = Some (length k)"
  by (induction k) (auto simp: startsWith_def)

lemma indexOf_no_slash_None:
  "CHR ''/'' \<notin> set k \<Longrightarrow> indexOf k ''/'' = None"
  by (induction k) (auto simp: startsWith_def)

lemma js_split_name: "CHR ''/'' \<notin> set k \<Longrightarrow> js_split k ''/'' = [k]"
  by (subst js_split.simps) (simp add: indexOf_no_slash_None)

lemma js_split_name_slash:
  "CHR ''/'' \<notin> set k \<Longrightarrow> js_split (k @ CHR ''/'' # r) ''/'' = k # js_split r ''/''"
  by (subst js_split.simps) (simp add: indexOf_no_slash)

lemma js_split_slash_join:
  "list_all valid_name ks \<Longrightarrow> CHR ''/'' \<notin> set k \<Longrightarrow> js_split (k @ slash_join ks) ''/'' = k # ks"
proof (induction ks arbitrary: k)
  case Nil
  then show ?case by (simp add: js_split_name)
next
  case (Cons a ks)
  then have "js_split (a @ slash_join ks) ''/'' = a # ks"
    by (simp add: valid_name_def)
  with Cons.prems show ?case
    by (simp add: js_split_name_slash)
qed

lemma js_split_path_of:
  "list_all valid_name ss \<Longrightarrow> ss \<noteq> [] \<Longrightarrow> js_split (path_of ss) ''/'' = [] # ss"
  using js_split_slash_join [of ss "[]"] by (simp add: path_of_def)

lemma filter_Boolean_valid: "list_all valid_name ss \<Longrightarrow> filter_Boolean ss = ss"
  by (induction ss) (auto simp: filter_Boolean_def valid_name_def)

lemma segments_path_of:
  "list_all valid_name ss \<Longrightarrow> filter_Boolean (js_split (path_of ss) ''/'') = ss"
proof (cases "ss = []")
  case True
  then show ?thesis
    by (simp add: path_of_def filter_Boolean_def js_split.simps startsWith_def)
next
  case False
  assume "list_all valid_name ss"
  with False show ?thesis
    using filter_Boolean_valid [of ss] by (simp add: js_split_path_of filter_Boolean_def)
qed

lemma collapse_name: "CHR ''/'' \<notin> set k \<Longrightarrow> collapse_slashes (k @ r) = k @ collapse_slashes r"
  by (induction k) auto

lemma collapse_slash_join: "list_all valid_name ss \<Longrightarrow> collapse_slashes (slash_join ss) = slash_join ss"
proof (induction ss)
  case Nil
  then show ?case by simp
next
  case (Cons k ks)
  then obtain c cs where k: "k = c # cs" "c \<noteq> CHR ''/''" "CHR ''/'' \<notin> set cs"
    by (cases k) (auto simp: valid_name_def)
  have "collapse_slashes (cs @ slash_join ks) = cs @ slash_join ks"
    using Cons k by (simp add: collapse_name)
  with k show ?case by simp
qed

lemma slash_join_last: "list_all valid_name ss \<Longrightarrow> ss \<noteq> [] \<Longrightarrow> last (slash_join ss) \<noteq> CHR ''/''"
proof (induction ss)
  case Nil
  then show ?case by simp
next
  case (Cons k ks)
  show ?case
  proof (cases "ks = []")
    case True
    from Cons.prems have "k \<noteq> []" "CHR ''/'' \<notin> set k"
      by (auto simp: valid_name_def)
    moreover from \<open>k \<noteq> []\<close> have "last k \<in> set k" by simp
    ultimately have "last k \<noteq> CHR ''/''" by metis
    with True \<open>k \<noteq> []\<close> show ?thesis by simp
  next
    case False
    with Cons have "last (slash_join ks) \<noteq> CHR ''/''" by simp
    moreover from False have "slash_join ks \<noteq> []" by (cases ks) auto
    ultimately show ?thesis by simp
  qed
qed

lemma endsWith_last: "endsWith s ''/'' \<longleftrightarrow> s \<noteq> [] \<and> last s = CHR ''/''"
proof (cases s rule: rev_cases)
  case Nil
  then show ?thesis by (simp add: endsWith_def)
next
  case (snoc ys y)
  then show ?thesis by (auto simp: endsWith_def)
qed

lemma normalizePath_path_of:
  assumes "list_all valid_name ss"
  shows "normalizePath (path_of ss) = path_of ss"
proof (cases "ss = []")
  case True
  then show ?thesis by (simp add: path_of_def normalizePath_def startsWith_def endsWith_def)
next
  case False
  then obtain k ks where "ss = k # ks" by (cases ss) auto
  then have sw: "startsWith (slash_join ss) ''/''" by (simp add: startsWith_def)
  have "\<not> endsWith (slash_join ss) ''/''"
    using slash_join_last [OF assms False] by (simp add: endsWith_last)
  with sw False assms show ?thesis
    by (simp add: normalizePath_def path_of_def collapse_slash_join)
qed

lemma js_join_slash: "js_join (k # ks) ''/'' = k @ slash_join ks"
  by (induction ks arbitrary: k) auto

lemma path_of_snoc_not_root: "path_of (ss @ [k]) \<noteq> ''/''" if "valid_name k"
proof -
  from that obtain c cs where "k = c # cs" by (cases k) (auto simp: valid_name_def)
  then show ?thesis by (cases ss) (auto simp: path_of_def)
qed

lemma getParentPath_path_of:
  assumes "list_all valid_name (ss @ [k])"
  shows "getParentPath (path_of (ss @ [k])) = path_of ss"
proof -
  define p where "p = path_of (ss @ [k])"
  have v: "valid_name k" using assms by simp
  have sp: "js_split p ''/'' = [] # ss @ [k]"
    unfolding p_def using assms by (simp add: js_split_path_of)
  have bl: "butlast ([] # ss @ [k]) = [] # ss"
    by (simp add: butlast_append)
  have np: "normalizePath p = p" unfolding p_def by (rule normalizePath_path_of [OF assms])
  have nr: "p \<noteq> ''/''" unfolding p_def by (rule path_of_snoc_not_root [OF v])
  have "getParentPath p = (if length ([] # ss) = 1 then ''/'' else js_join ([] # ss) ''/'')"
    unfolding getParentPath_def np Let_def sp bl using nr by simp
  also have "\<dots> = path_of ss"
    by (cases ss) (simp_all add: path_of_def js_join_slash)
  finally show ?thesis unfolding p_def .
qed

lemma getFileName_path_of:
  assumes "list_all valid_name (ss @ [k])"
  shows "getFileName (path_of (ss @ [k])) = k"
proof -
  define p where "p = path_of (ss @ [k])"
  have v: "valid_name k" using assms by simp
  have sp: "js_split p ''/'' = [] # ss @ [k]"
    unfolding p_def using assms by (simp add: js_split_path_of)
  have np: "normalizePath p = p" unfolding p_def by (rule normalizePath_path_of [OF assms])
  have nr: "p \<noteq> ''/''" unfolding p_def by (rule path_of_snoc_not_root [OF v])
  have "getFileName p = k"
    unfolding getFileName_def np Let_def sp using nr by simp
  then show ?thesis unfolding p_def .
qed

lemma path_of_eq_root: "list_all valid_name ss \<Longrightarrow> path_of ss = ''/'' \<longleftrightarrow> ss = []"
  using path_of_snoc_not_root by (cases ss rule: rev_cases) (auto simp: path_of_def)

lemma path_of_inject:
  assumes "list_all valid_name xs" "list_all valid_name ys" "path_of xs = path_of ys"
  shows "xs = ys"
  using assms segments_path_of by metis

lemma path_of_append: "qs \<noteq> [] \<Longrightarrow> path_of (qs @ ts) = path_of qs @ slash_join ts"
  by (simp add: path_of_def)

lemma path_of_snoc: "qs \<noteq> [] \<Longrightarrow> path_of (qs @ [k]) = path_of qs @ ''/'' @ k"
  by (simp add: path_of_def)

lemma length_path_of_snoc: "k \<noteq> [] \<Longrightarrow> length (path_of ss) < length (path_of (ss @ [k]))"
  by (cases "ss = []") (auto simp: path_of_def)


section \<open>The invariant of the two indices\<close>

text \<open>
  \<open>vfs_inv\<close> is the invariant the operations maintain. The root is in the table; the
  table is finite; an entry of the table under \<open>p\<close> is an allocated object whose stored
  path is \<open>p\<close>, a clean path, and which has a children map exactly if it is a directory,
  with distinct keys; the entry under \<open>ss @ [k]\<close> is named \<open>k\<close> and is the child \<open>k\<close> of
  the entry under \<open>ss\<close>; and the child \<open>k\<close> of the entry under \<open>ss\<close> is the entry under
  \<open>ss @ [k]\<close>.
\<close>

definition inv_root :: "VirtualFileSystem \<Rightarrow> bool" where
  "inv_root s \<longleftrightarrow> files s ''/'' = Some (root s) \<and> name (heap s (root s)) = ''/''
      \<and> type (heap s (root s)) = Directory"

definition inv_nodes :: "VirtualFileSystem \<Rightarrow> bool" where
  "inv_nodes s \<longleftrightarrow> (\<forall>p a. files s p = Some a \<longrightarrow>
      a < fresh s \<and> path (heap s a) = p \<and> (\<exists>ss. list_all valid_name ss \<and> p = path_of ss)
      \<and> (type (heap s a) = Directory \<longleftrightarrow> children (heap s a) \<noteq> None)
      \<and> (\<forall>cs. children (heap s a) = Some cs \<longrightarrow> distinct (map fst cs)))"

definition inv_up :: "VirtualFileSystem \<Rightarrow> bool" where
  "inv_up s \<longleftrightarrow> (\<forall>ss k a. list_all valid_name (ss @ [k]) \<longrightarrow> files s (path_of (ss @ [k])) = Some a \<longrightarrow>
      name (heap s a) = k
      \<and> (\<exists>pa cs. files s (path_of ss) = Some pa \<and> children (heap s pa) = Some cs
            \<and> map_of cs k = Some a))"

definition inv_down :: "VirtualFileSystem \<Rightarrow> bool" where
  "inv_down s \<longleftrightarrow> (\<forall>ss a cs k c. list_all valid_name ss \<longrightarrow> files s (path_of ss) = Some a \<longrightarrow>
      children (heap s a) = Some cs \<longrightarrow> map_of cs k = Some c \<longrightarrow>
      valid_name k \<and> files s (path_of (ss @ [k])) = Some c)"

definition vfs_inv :: "VirtualFileSystem \<Rightarrow> bool" where
  "vfs_inv s \<longleftrightarrow> inv_root s \<and> finite (dom (files s)) \<and> inv_nodes s \<and> inv_up s \<and> inv_down s"

lemma path_of_inj_iff:
  "list_all valid_name xs \<Longrightarrow> list_all valid_name ys \<Longrightarrow> path_of xs = path_of ys \<longleftrightarrow> xs = ys"
  using path_of_inject by blast

lemma files_inj:
  assumes "inv_nodes s" "files s p = Some a" "files s q = Some a"
  shows "p = q"
proof -
  from assms have "path (heap s a) = p" "path (heap s a) = q"
    unfolding inv_nodes_def by blast+
  then show ?thesis by simp
qed

lemma inv_add_leaf:
  assumes inv: "vfs_inv s"
    and v: "list_all valid_name (ss @ [k])"
    and new: "files s (path_of (ss @ [k])) = None"
    and par: "files s (path_of ss) = Some pa"
    and cs: "children (heap s pa) = Some cs"
    and n: "name n = k" "path n = path_of (ss @ [k])"
        "type n = Directory \<longleftrightarrow> children n \<noteq> None" "children n = None \<or> children n = Some []"
  shows "vfs_inv (s\<lparr>heap := ((heap s)(fresh s := n))
                     (pa := (heap s pa)\<lparr>children := Some (AList.update k (fresh s) cs)\<rparr>),
                   fresh := Suc (fresh s),
                   files := (files s)(path_of (ss @ [k]) \<mapsto> fresh s)\<rparr>)"
    (is "vfs_inv ?s'")
proof -
  from inv have ir: "inv_root s" and fin: "finite (dom (files s))" and inn: "inv_nodes s"
    and iu: "inv_up s" and idn: "inv_down s"
    by (auto simp: vfs_inv_def)
  let ?p = "path_of (ss @ [k])"
  let ?d = "fresh s"
  have vss: "list_all valid_name ss" and vk: "valid_name k" using v by auto
  have pa_lt: "pa < ?d" using inn par by (auto simp: inv_nodes_def)
  have lt: "\<And>q a. files s q = Some a \<Longrightarrow> a < ?d" using inn by (auto simp: inv_nodes_def)
  have p_not_root: "?p \<noteq> ''/''" using vk by (rule path_of_snoc_not_root)
  have k_new: "map_of cs k = None"
  proof (rule ccontr)
    assume "map_of cs k \<noteq> None"
    then obtain c where "map_of cs k = Some c" by auto
    with idn vss par cs have "files s ?p = Some c" by (auto simp: inv_down_def)
    with new show False by simp
  qed
  have pa_path: "path (heap s pa) = path_of ss" using inn par by (auto simp: inv_nodes_def)
  have 1: "inv_root ?s'"
    using ir p_not_root lt [of "''/''" "root s"] pa_lt
    by (auto simp: inv_root_def)
  have 2: "finite (dom (files ?s'))" using fin by simp
  have 3: "inv_nodes ?s'"
    unfolding inv_nodes_def
  proof (intro allI impI)
    fix q a assume qa: "files ?s' q = Some a"
    show "a < fresh ?s' \<and> path (heap ?s' a) = q \<and> (\<exists>ss. list_all valid_name ss \<and> q = path_of ss)
      \<and> (type (heap ?s' a) = Directory \<longleftrightarrow> children (heap ?s' a) \<noteq> None)
      \<and> (\<forall>cs. children (heap ?s' a) = Some cs \<longrightarrow> distinct (map fst cs))"
    proof (cases "q = ?p")
      case True
      with qa have "a = ?d" by simp
      moreover have "\<exists>ts. list_all valid_name ts \<and> ?p = path_of ts" using v by blast
      ultimately show ?thesis using True pa_lt n by auto
    next
      case False
      with qa have old: "files s q = Some a" by simp
      then have "a < ?d" by (rule lt)
      moreover from old inn have "path (heap s a) = q" "\<exists>ss. list_all valid_name ss \<and> q = path_of ss"
        "type (heap s a) = Directory \<longleftrightarrow> children (heap s a) \<noteq> None"
        "\<forall>cs. children (heap s a) = Some cs \<longrightarrow> distinct (map fst cs)"
        by (auto simp: inv_nodes_def)
      ultimately show ?thesis
        using cs by (auto simp: distinct_update)
    qed
  qed
  have 4: "inv_up ?s'"
    unfolding inv_up_def
  proof (intro allI impI)
    fix ts j a assume vt: "list_all valid_name (ts @ [j])" and qa: "files ?s' (path_of (ts @ [j])) = Some a"
    show "name (heap ?s' a) = j \<and> (\<exists>pa' cs'. files ?s' (path_of ts) = Some pa'
            \<and> children (heap ?s' pa') = Some cs' \<and> map_of cs' j = Some a)"
    proof (cases "ts @ [j] = ss @ [k]")
      case True
      then have "ts = ss" "j = k" by auto
      with qa have "a = ?d" by simp
      with \<open>ts = ss\<close> \<open>j = k\<close> par pa_lt n vss v show ?thesis
        by (auto simp: update_conv' path_of_inj_iff)
    next
      case False
      with vt v have ne: "path_of (ts @ [j]) \<noteq> ?p" by (simp add: path_of_inj_iff)
      with qa have old: "files s (path_of (ts @ [j])) = Some a" by simp
      with iu vt obtain pa' cs' where o: "name (heap s a) = j" "files s (path_of ts) = Some pa'"
        "children (heap s pa') = Some cs'" "map_of cs' j = Some a"
        unfolding inv_up_def by blast
      have "a < ?d" "pa' < ?d" using old o lt by auto
      have "path_of ts \<noteq> ?p" using o new by auto
      show ?thesis
      proof (cases "pa' = pa")
        case True
        with o cs have "cs' = cs" by simp
        with o k_new have "j \<noteq> k" by auto
        with True o \<open>a < ?d\<close> \<open>pa' < ?d\<close> \<open>path_of ts \<noteq> ?p\<close> \<open>cs' = cs\<close> pa_lt show ?thesis
          by (auto simp: update_conv')
      next
        case False
        with o \<open>a < ?d\<close> \<open>pa' < ?d\<close> \<open>path_of ts \<noteq> ?p\<close> cs k_new show ?thesis
          by (auto simp: update_conv')
      qed
    qed
  qed
  have 5: "inv_down ?s'"
    unfolding inv_down_def
  proof (intro allI impI)
    fix ts a cs' j c
    assume vt: "list_all valid_name ts" and qa: "files ?s' (path_of ts) = Some a"
      and ch: "children (heap ?s' a) = Some cs'" and m: "map_of cs' j = Some c"
    show "valid_name j \<and> files ?s' (path_of (ts @ [j])) = Some c"
    proof (cases "path_of ts = ?p")
      case True
      with qa have "a = ?d" by simp
      with ch pa_lt n have "cs' = []" by auto
      with m show ?thesis by simp
    next
      case False
      with qa have old: "files s (path_of ts) = Some a" by simp
      then have "a < ?d" by (rule lt)
      show ?thesis
      proof (cases "a = pa")
        case True
        with old par inn have "path_of ts = path_of ss" by (auto dest: files_inj)
        with vt vss have "ts = ss" by (simp add: path_of_inj_iff)
        from True ch cs have cs': "cs' = AList.update k ?d cs" by auto
        show ?thesis
        proof (cases "j = k")
          case True
          with m cs' have "c = ?d" by (simp add: update_conv')
          with True \<open>ts = ss\<close> vk show ?thesis by simp
        next
          case False
          with m cs' have "map_of cs j = Some c" by (simp add: update_conv')
          with idn vss par cs have "valid_name j" "files s (path_of (ss @ [j])) = Some c"
            by (auto simp: inv_down_def)
          moreover have "path_of (ss @ [j]) \<noteq> ?p" using calculation new by auto
          ultimately show ?thesis using \<open>ts = ss\<close> by simp
        qed
      next
        case False
        with ch \<open>a < ?d\<close> have "children (heap s a) = Some cs'" by auto
        with idn vt old m have "valid_name j" "files s (path_of (ts @ [j])) = Some c"
          by (auto simp: inv_down_def)
        moreover have "path_of (ts @ [j]) \<noteq> ?p" using calculation new by auto
        ultimately show ?thesis by simp
      qed
    qed
  qed
  from 1 2 3 4 5 show ?thesis by (simp add: vfs_inv_def)
qed


text \<open>What an operation that only adds nodes leaves untouched.\<close>

definition grows :: "VirtualFileSystem \<Rightarrow> VirtualFileSystem \<Rightarrow> bool" where
  "grows s s' \<longleftrightarrow> root s' = root s \<and> fresh s \<le> fresh s' \<and> files s \<subseteq>\<^sub>m files s'
     \<and> (\<forall>a. a < fresh s \<longrightarrow> type (heap s' a) = type (heap s a) \<and> name (heap s' a) = name (heap s a)
            \<and> path (heap s' a) = path (heap s a) \<and> content (heap s' a) = content (heap s a))"

lemma grows_refl [simp]: "grows s s"
  by (simp add: grows_def)

lemma grows_trans: "grows s s' \<Longrightarrow> grows s' s'' \<Longrightarrow> grows s s''"
  unfolding grows_def by (auto intro: map_le_trans)

text \<open>The state after a new node \<open>n\<close> became the child \<open>k\<close> of the directory at \<open>ss\<close>.\<close>

definition added :: "string list \<Rightarrow> string \<Rightarrow> FileNode \<Rightarrow> addr \<Rightarrow> (string \<times> addr) list \<Rightarrow>
    VirtualFileSystem \<Rightarrow> VirtualFileSystem" where
  "added ss k n pa cs s =
     s\<lparr>heap := ((heap s)(fresh s := n))
                 (pa := (heap s pa)\<lparr>children := Some (AList.update k (fresh s) cs)\<rparr>),
       fresh := Suc (fresh s),
       files := (files s)(path_of (ss @ [k]) \<mapsto> fresh s)\<rparr>"

lemma inv_D:
  assumes "vfs_inv s"
  shows "inv_root s" "finite (dom (files s))" "inv_nodes s" "inv_up s" "inv_down s"
  using assms by (auto simp: vfs_inv_def)

lemma inv_lt: "vfs_inv s \<Longrightarrow> files s p = Some a \<Longrightarrow> a < fresh s"
  by (auto simp: vfs_inv_def inv_nodes_def)

lemma inv_dir_children:
  "vfs_inv s \<Longrightarrow> files s p = Some a \<Longrightarrow> type (heap s a) = Directory \<Longrightarrow> \<exists>cs. children (heap s a) = Some cs"
  by (auto simp: vfs_inv_def inv_nodes_def)

lemma inv_root_exists: "vfs_inv s \<Longrightarrow> files s (path_of []) = Some (root s)"
  by (auto simp: vfs_inv_def inv_root_def path_of_def)

lemma grows_added:
  assumes "vfs_inv s" "files s (path_of (ss @ [k])) = None" "files s (path_of ss) = Some pa"
  shows "grows s (added ss k n pa cs s)"
proof -
  have "pa < fresh s" using assms by (auto dest: inv_lt)
  with assms(2) show ?thesis
    by (auto simp: grows_def added_def map_le_def)
qed

lemma createDirectory_result:
  assumes inv: "vfs_inv s" and v: "list_all valid_name ts" and np: "normalizePath p0 = path_of ts"
  shows "createDirectory p0 s =
     (if files s (path_of ts) \<noteq> None then Inr (None, s)
      else (case files s (path_of (butlast ts)) of
              None \<Rightarrow> Inr (None, s)
            | Some pa \<Rightarrow>
                if type (heap s pa) \<noteq> Directory then Inr (None, s)
                else Inr (Some (fresh s),
                       added (butlast ts) (last ts)
                         \<lparr>type = Directory, name = last ts, path = path_of ts, content = None,
                          children = Some []\<rparr> pa (the (children (heap s pa))) s)))"
proof (cases "files s (path_of ts) \<noteq> None")
  case True
  then show ?thesis by (simp add: createDirectory_def np Let_def)
next
  case False
  then have "ts \<noteq> []" using inv_root_exists [OF inv] by auto
  then obtain ss k where ts: "ts = ss @ [k]" by (cases ts rule: rev_cases) auto
  have gp: "getParentPath (path_of ts) = path_of ss" and gf: "getFileName (path_of ts) = k"
    using v unfolding ts by (simp_all add: getParentPath_path_of getFileName_path_of)
  show ?thesis
  proof (cases "files s (path_of ss)")
    case None
    with False show ?thesis by (simp add: createDirectory_def np getParentNode_def gp [unfolded ts] ts Let_def)
  next
    case (Some pa)
    show ?thesis
    proof (cases "type (heap s pa) = Directory")
      case dir: True
      then obtain cs where cs: "children (heap s pa) = Some cs"
        using inv_dir_children [OF inv Some] by auto
      have "pa < fresh s" using inv Some by (rule inv_lt)
      then show ?thesis
        using False Some dir cs
        by (simp add: createDirectory_def np getParentNode_def gp [unfolded ts] gf [unfolded ts]
            alloc_def children_set_def added_def ts Let_def)
    next
      case False
      with \<open>\<not> files s (path_of ts) \<noteq> None\<close> Some show ?thesis
        by (simp add: createDirectory_def np getParentNode_def gp [unfolded ts] ts Let_def)
    qed
  qed
qed

lemma createDirectory_inv:
  assumes inv: "vfs_inv s" and v: "list_all valid_name ts" and np: "normalizePath p0 = path_of ts"
  shows "\<exists>r s'. createDirectory p0 s = Inr (r, s') \<and> vfs_inv s' \<and> grows s s'
           \<and> dom (files s') \<subseteq> insert (path_of ts) (dom (files s))
           \<and> (files s (path_of ts) = None \<longrightarrow>
                (\<exists>pa. files s (path_of (butlast ts)) = Some pa \<and> type (heap s pa) = Directory) \<longrightarrow>
                (\<exists>a. files s' (path_of ts) = Some a \<and> type (heap s' a) = Directory))"
proof (cases "files s (path_of ts) = None \<and> (\<exists>pa. files s (path_of (butlast ts)) = Some pa
          \<and> type (heap s pa) = Directory)")
  case True
  then obtain pa where pa: "files s (path_of ts) = None" "files s (path_of (butlast ts)) = Some pa"
    "type (heap s pa) = Directory" by auto
  then obtain cs where cs: "children (heap s pa) = Some cs"
    using inv_dir_children [OF inv] by blast
  from pa have "ts \<noteq> []" using inv_root_exists [OF inv] by auto
  then have ts: "ts = butlast ts @ [last ts]" by simp
  let ?n = "\<lparr>type = Directory, name = last ts, path = path_of ts, content = None,
             children = Some []\<rparr>"
  let ?s' = "added (butlast ts) (last ts) ?n pa cs s"
  have r: "createDirectory p0 s = Inr (Some (fresh s), ?s')"
    using pa cs by (simp add: createDirectory_result [OF assms])
  have "vfs_inv ?s'"
    unfolding added_def
    using inv_add_leaf [OF inv, of "butlast ts" "last ts" pa cs ?n] v pa cs ts by simp
  moreover have "grows s ?s'"
    using grows_added [OF inv, of "butlast ts" "last ts" pa] pa ts by simp
  moreover have "dom (files ?s') \<subseteq> insert (path_of ts) (dom (files s))"
    using ts by (auto simp: added_def)
  moreover have "pa < fresh s" using inv pa(2) by (rule inv_lt)
  then have "files ?s' (path_of ts) = Some (fresh s) \<and> type (heap ?s' (fresh s)) = Directory"
    using ts by (auto simp: added_def)
  ultimately show ?thesis using r by blast
next
  case False
  then have "createDirectory p0 s = Inr (None, s)"
    by (auto simp: createDirectory_result [OF assms] split: option.splits)
  with inv False show ?thesis by auto
qed

lemma create_parents_inv:
  assumes "vfs_inv s" "list_all valid_name (pre @ parts)"
  shows "\<exists>s'. create_parents parts (slash_join pre) s = Inr s' \<and> vfs_inv s' \<and> grows s s'
     \<and> dom (files s') \<subseteq> dom (files s) \<union> {path_of (pre @ take i parts) | i. 0 < i \<and> i \<le> length parts}
     \<and> ((\<exists>a. files s (path_of pre) = Some a \<and> type (heap s a) = Directory) \<longrightarrow>
        (\<forall>i a. i \<le> length parts \<longrightarrow> files s (path_of (pre @ take i parts)) = Some a
              \<longrightarrow> type (heap s a) = Directory) \<longrightarrow>
        (\<exists>a. files s' (path_of (pre @ parts)) = Some a \<and> type (heap s' a) = Directory))"
  using assms
proof (induction parts arbitrary: pre s)
  case Nil
  then show ?case by auto
next
  case (Cons k parts)
  let ?q = "path_of (pre @ [k])"
  have vq: "list_all valid_name (pre @ [k])" and vrest: "list_all valid_name ((pre @ [k]) @ parts)"
    using Cons.prems by auto
  have cp: "slash_join pre @ CHR ''/'' # k = ?q" by (simp add: path_of_def)
  have sj: "slash_join (pre @ [k]) = ?q" by (simp add: path_of_def)
  have nq: "normalizePath ?q = ?q" using vq by (rule normalizePath_path_of)
  obtain r s1 where s1: "createDirectory ?q s = Inr (r, s1)" "vfs_inv s1" "grows s s1"
    "dom (files s1) \<subseteq> insert ?q (dom (files s))"
    "files s ?q = None \<longrightarrow>
       (\<exists>pa. files s (path_of pre) = Some pa \<and> type (heap s pa) = Directory) \<longrightarrow>
       (\<exists>a. files s1 ?q = Some a \<and> type (heap s1 a) = Directory)"
    using createDirectory_inv [OF Cons.prems(1) vq nq] by auto
  define s2 where "s2 = (if files s ?q = None then s1 else s)"
  have step: "create_parents (k # parts) (slash_join pre) s = create_parents parts (slash_join (pre @ [k])) s2"
    using s1(1) by (simp add: cp exists_def nq s2_def Let_def)
  have inv2: "vfs_inv s2" and g2: "grows s s2"
    and d2: "dom (files s2) \<subseteq> insert ?q (dom (files s))"
    using s1 Cons.prems(1) by (auto simp: s2_def)
  from Cons.IH [OF inv2 vrest] obtain s' where s': "create_parents parts (slash_join (pre @ [k])) s2 = Inr s'"
    "vfs_inv s'" "grows s2 s'"
    "dom (files s') \<subseteq> dom (files s2) \<union> {path_of ((pre @ [k]) @ take i parts) | i. 0 < i \<and> i \<le> length parts}"
    "(\<exists>a. files s2 (path_of (pre @ [k])) = Some a \<and> type (heap s2 a) = Directory) \<longrightarrow>
        (\<forall>i a. i \<le> length parts \<longrightarrow> files s2 (path_of ((pre @ [k]) @ take i parts)) = Some a
              \<longrightarrow> type (heap s2 a) = Directory) \<longrightarrow>
        (\<exists>a. files s' (path_of ((pre @ [k]) @ parts)) = Some a \<and> type (heap s' a) = Directory)"
    by blast
  have dom: "dom (files s') \<subseteq> dom (files s) \<union> {path_of (pre @ take i (k # parts)) | i. 0 < i \<and> i \<le> length (k # parts)}"
  proof
    fix x assume "x \<in> dom (files s')"
    with s'(4) d2 consider "x \<in> dom (files s)" | "x = ?q"
      | i where "0 < i" "i \<le> length parts" "x = path_of ((pre @ [k]) @ take i parts)"
      by blast
    then show "x \<in> dom (files s) \<union> {path_of (pre @ take i (k # parts)) | i. 0 < i \<and> i \<le> length (k # parts)}"
    proof cases
      case 1
      then show ?thesis by simp
    next
      case 2
      then have "x = path_of (pre @ take 1 (k # parts))" by simp
      then show ?thesis by (intro UnI2 CollectI exI [of _ 1]) auto
    next
      case 3
      then have "x = path_of (pre @ take (Suc i) (k # parts))" by simp
      with 3 show ?thesis by (intro UnI2 CollectI exI [of _ "Suc i"]) auto
    qed
  qed
  have succ: "(\<exists>a. files s' (path_of (pre @ k # parts)) = Some a \<and> type (heap s' a) = Directory)"
    if pd: "\<exists>a. files s (path_of pre) = Some a \<and> type (heap s a) = Directory"
      and all: "\<forall>i a. i \<le> length (k # parts) \<longrightarrow> files s (path_of (pre @ take i (k # parts))) = Some a
              \<longrightarrow> type (heap s a) = Directory"
  proof -
    have q2: "\<exists>a. files s2 ?q = Some a \<and> type (heap s2 a) = Directory"
    proof (cases "files s ?q")
      case None
      with s1(5) pd show ?thesis by (simp add: s2_def)
    next
      case (Some a)
      moreover have "type (heap s a) = Directory"
        using all [rule_format, of 1 a] Some by simp
      ultimately show ?thesis by (simp add: s2_def)
    qed
    have "\<forall>i a. i \<le> length parts \<longrightarrow> files s2 (path_of ((pre @ [k]) @ take i parts)) = Some a
              \<longrightarrow> type (heap s2 a) = Directory"
    proof (intro allI impI)
      fix i a assume i: "i \<le> length parts" and f: "files s2 (path_of ((pre @ [k]) @ take i parts)) = Some a"
      show "type (heap s2 a) = Directory"
      proof (cases "files s (path_of ((pre @ [k]) @ take i parts))")
        case None
        with f d2 have "path_of ((pre @ [k]) @ take i parts) = ?q" by auto
        with f q2 show ?thesis by auto
      next
        case (Some b)
        with g2 f have "b = a" by (auto simp: grows_def map_le_def dom_def)
        with Some have "type (heap s a) = Directory"
          using all [rule_format, of "Suc i" a] i by simp
        moreover have "a < fresh s" using Cons.prems(1) Some \<open>b = a\<close> by (auto dest: inv_lt)
        ultimately show ?thesis using g2 by (auto simp: grows_def)
      qed
    qed
    with s'(5) q2 show ?thesis by simp
  qed
  from step s' g2 dom succ show ?case
    using grows_trans [OF g2 s'(3)] by auto
qed

lemma createFile_inv:
  assumes inv: "vfs_inv s" and v: "list_all valid_name ts" and np: "normalizePath p0 = path_of ts"
  shows "\<exists>r s'. createFile p0 c s = Inr (r, s') \<and> vfs_inv s' \<and> grows s s'"
proof (cases "files s (path_of ts) \<noteq> None")
  case True
  then have "createFile p0 c s = Inr (None, s)" by (simp add: createFile_def np Let_def)
  with inv show ?thesis by auto
next
  case False
  then have "ts \<noteq> []" using inv_root_exists [OF inv] by auto
  then obtain ss k where ts: "ts = ss @ [k]" by (cases ts rule: rev_cases) auto
  have gp: "getParentPath (path_of (ss @ [k])) = path_of ss"
    and gf: "getFileName (path_of (ss @ [k])) = k"
    using v unfolding ts by (simp_all add: getParentPath_path_of getFileName_path_of)
  have parts: "filter_Boolean (js_split (path_of (ss @ [k])) ''/'') = ss @ [k]"
    using v unfolding ts by (rule segments_path_of)
  have vss: "list_all valid_name ([] @ ss)" using v ts by simp
  from create_parents_inv [OF inv vss] obtain sa where sa:
    "create_parents ss [] s = Inr sa" "vfs_inv sa" "grows s sa"
    "dom (files sa) \<subseteq> dom (files s) \<union> {path_of (take i ss) | i. 0 < i \<and> i \<le> length ss}"
    by auto
  have new: "files sa (path_of (ss @ [k])) = None"
  proof (rule ccontr)
    assume "files sa (path_of (ss @ [k])) \<noteq> None"
    then have "path_of (ss @ [k]) \<in> dom (files sa)" by auto
    with sa(4) False ts obtain i where "i \<le> length ss" "path_of (ss @ [k]) = path_of (take i ss)"
      by auto
    moreover have "list_all valid_name (take i ss)"
      using vss by (auto simp: list_all_iff dest: in_set_takeD)
    ultimately have "ss @ [k] = take i ss" using v ts by (simp add: path_of_inj_iff)
    then have "length (ss @ [k]) = length (take i ss)" by simp
    then show False by simp
  qed
  show ?thesis
  proof (cases "\<exists>pa. files sa (path_of ss) = Some pa \<and> type (heap sa pa) = Directory")
    case True
    then obtain pa where pa: "files sa (path_of ss) = Some pa" "type (heap sa pa) = Directory"
      by auto
    then obtain cs where cs: "children (heap sa pa) = Some cs"
      using inv_dir_children [OF sa(2)] by blast
    let ?n = "\<lparr>type = File, name = k, path = path_of (ss @ [k]), content = Some c,
               children = None\<rparr>"
    let ?s' = "added ss k ?n pa cs sa"
    have "pa < fresh sa" using sa(2) pa(1) by (rule inv_lt)
    then have r: "createFile p0 c s = Inr (Some (fresh sa), ?s')"
      using False pa cs sa(1)
      by (simp add: createFile_def np ts gp gf parts getParentNode_def alloc_def children_set_def
          added_def Let_def butlast_append)
    have "vfs_inv ?s'"
      unfolding added_def
      using inv_add_leaf [OF sa(2), of ss k pa cs ?n] v ts new pa cs by simp
    moreover have "grows sa ?s'"
      using grows_added [OF sa(2) new pa(1)] by simp
    ultimately show ?thesis using r grows_trans [OF sa(3)] by blast
  next
    case nodir: False
    then have "createFile p0 c s = Inr (None, sa)"
      using False sa(1)
      by (auto simp: createFile_def np ts gp gf parts getParentNode_def Let_def butlast_append
          split: option.splits)
    with sa show ?thesis by auto
  qed
qed

lemma inv_cong:
  assumes "vfs_inv s" "files s' = files s" "fresh s' = fresh s" "root s' = root s"
    and "\<And>a. type (heap s' a) = type (heap s a)" "\<And>a. name (heap s' a) = name (heap s a)"
    and "\<And>a. path (heap s' a) = path (heap s a)"
    and "\<And>a. children (heap s' a) = children (heap s a)"
  shows "vfs_inv s'"
  using assms(1)
  unfolding vfs_inv_def inv_root_def inv_nodes_def inv_up_def inv_down_def assms(2-8)
  by blast

lemma updateFile_inv:
  assumes "vfs_inv s"
  shows "vfs_inv (snd (updateFile p0 c s))"
proof (cases "files s (normalizePath p0)")
  case None
  with assms show ?thesis by (simp add: updateFile_def)
next
  case (Some a)
  show ?thesis
  proof (cases "type (heap s a) = File")
    case True
    have "vfs_inv (s\<lparr>heap := (heap s)(a := (heap s a)\<lparr>content := Some c\<rparr>)\<rparr>)"
      by (rule inv_cong [OF assms]) auto
    with Some True show ?thesis by (simp add: updateFile_def)
  next
    case False
    with Some assms show ?thesis by (simp add: updateFile_def)
  qed
qed

text \<open>The paths of the subtree at \<open>ts\<close>, and what \<open>deleteFile\<close> keeps of every object:
  everything but the children map.\<close>

definition below :: "string list \<Rightarrow> string set" where
  "below ts = {path_of (ts @ us) | us. list_all valid_name us}"

definition same_fields :: "VirtualFileSystem \<Rightarrow> VirtualFileSystem \<Rightarrow> bool" where
  "same_fields s s' \<longleftrightarrow> fresh s' = fresh s \<and> root s' = root s
     \<and> (\<forall>a. type (heap s' a) = type (heap s a) \<and> name (heap s' a) = name (heap s a)
            \<and> path (heap s' a) = path (heap s a) \<and> content (heap s' a) = content (heap s a))"

lemma same_fields_refl [simp]: "same_fields s s"
  by (simp add: same_fields_def)

lemma same_fields_trans: "same_fields s s' \<Longrightarrow> same_fields s' s'' \<Longrightarrow> same_fields s s''"
  by (simp add: same_fields_def)

lemma below_self: "path_of ts \<in> below ts"
  unfolding below_def by (rule CollectI, rule exI [of _ "[]"]) simp

lemma below_child: "valid_name j \<Longrightarrow> below (ts @ [j]) \<subseteq> below ts"
proof
  fix x assume v: "valid_name j" and "x \<in> below (ts @ [j])"
  then obtain us where "list_all valid_name us" "x = path_of ((ts @ [j]) @ us)"
    by (auto simp: below_def)
  then have "list_all valid_name (j # us)" "x = path_of (ts @ (j # us))" using v by auto
  then show "x \<in> below ts" unfolding below_def by blast
qed

lemma inv_prefix_closed:
  assumes "vfs_inv s" "list_all valid_name (ts @ us)" "files s (path_of (ts @ us)) \<noteq> None"
  shows "files s (path_of ts) \<noteq> None"
  using assms(2,3)
proof (induction us rule: rev_induct)
  case Nil
  then show ?case by simp
next
  case (snoc j us)
  then obtain a where a: "files s (path_of ((ts @ us) @ [j])) = Some a" by auto
  have "list_all valid_name ((ts @ us) @ [j])" using snoc.prems by simp
  with inv_D(4) [OF assms(1)] a have "files s (path_of (ts @ us)) \<noteq> None"
    unfolding inv_up_def by blast
  with snoc show ?case by simp
qed

lemma below_cases:
  assumes "x \<in> below ts" "list_all valid_name ts"
  shows "x = path_of ts \<or> (\<exists>j. valid_name j \<and> x \<in> below (ts @ [j]))"
proof -
  from assms obtain us where us: "list_all valid_name us" "x = path_of (ts @ us)"
    by (auto simp: below_def)
  show ?thesis
  proof (cases us)
    case Nil
    with us show ?thesis by simp
  next
    case (Cons j vs)
    with us have "valid_name j" "list_all valid_name vs" "x = path_of ((ts @ [j]) @ vs)" by auto
    then show ?thesis unfolding below_def by blast
  qed
qed

lemma path_not_below_child:
  assumes "list_all valid_name (ts @ [j])"
  shows "path_of ts \<notin> below (ts @ [j])"
proof
  assume "path_of ts \<in> below (ts @ [j])"
  then obtain us where us: "list_all valid_name us" "path_of ts = path_of ((ts @ [j]) @ us)"
    by (auto simp: below_def)
  with assms have "ts = (ts @ [j]) @ us" by (subst (asm) path_of_inj_iff) auto
  then have "length ts = length ((ts @ [j]) @ us)" by simp
  then show False by simp
qed

lemma below_disjoint:
  assumes "list_all valid_name (ts @ [j])" "list_all valid_name (ts @ [i])" "i \<noteq> j"
  shows "below (ts @ [i]) \<inter> below (ts @ [j]) = {}"
proof (rule ccontr)
  assume "below (ts @ [i]) \<inter> below (ts @ [j]) \<noteq> {}"
  then obtain us vs where "list_all valid_name us" "list_all valid_name vs"
    "path_of ((ts @ [i]) @ us) = path_of ((ts @ [j]) @ vs)"
    by (auto simp: below_def)
  with assms have "(ts @ [i]) @ us = (ts @ [j]) @ vs" by (subst (asm) path_of_inj_iff) auto
  with assms(3) show False by simp
qed

lemma inv_remove_leaf:
  assumes inv: "vfs_inv s"
    and v: "list_all valid_name (ss @ [k])"
    and a: "files s (path_of (ss @ [k])) = Some a"
    and leaf: "children (heap s a) = None \<or> children (heap s a) = Some []"
    and par: "files s (path_of ss) = Some pa"
    and cs: "children (heap s pa) = Some cs"
  shows "vfs_inv (s\<lparr>heap := (heap s)(pa := (heap s pa)\<lparr>children := Some (AList.delete k cs)\<rparr>),
                   files := (files s)(path_of (ss @ [k]) := None)\<rparr>)"
    (is "vfs_inv ?s'")
proof -
  note ir = inv_D(1) [OF inv] and fin = inv_D(2) [OF inv] and inn = inv_D(3) [OF inv]
    and iu = inv_D(4) [OF inv] and idn = inv_D(5) [OF inv]
  let ?p = "path_of (ss @ [k])"
  have vss: "list_all valid_name ss" and vk: "valid_name k" using v by auto
  have p_not_root: "?p \<noteq> ''/''" using vk by (rule path_of_snoc_not_root)
  have 1: "inv_root ?s'"
    using ir p_not_root by (auto simp: inv_root_def)
  have 2: "finite (dom (files ?s'))" using fin by simp
  have 3: "inv_nodes ?s'"
    unfolding inv_nodes_def
  proof (intro allI impI)
    fix q b assume qb: "files ?s' q = Some b"
    then have old: "files s q = Some b" by (auto split: if_splits)
    with inn have "b < fresh s" "path (heap s b) = q" "\<exists>ss. list_all valid_name ss \<and> q = path_of ss"
      "type (heap s b) = Directory \<longleftrightarrow> children (heap s b) \<noteq> None"
      "\<forall>cs. children (heap s b) = Some cs \<longrightarrow> distinct (map fst cs)"
      by (auto simp: inv_nodes_def)
    then show "b < fresh ?s' \<and> path (heap ?s' b) = q \<and> (\<exists>ss. list_all valid_name ss \<and> q = path_of ss)
      \<and> (type (heap ?s' b) = Directory \<longleftrightarrow> children (heap ?s' b) \<noteq> None)
      \<and> (\<forall>cs. children (heap ?s' b) = Some cs \<longrightarrow> distinct (map fst cs))"
      using cs by (auto simp: distinct_delete)
  qed
  have 4: "inv_up ?s'"
    unfolding inv_up_def
  proof (intro allI impI)
    fix ts j b assume vt: "list_all valid_name (ts @ [j])" and qb: "files ?s' (path_of (ts @ [j])) = Some b"
    then have ne: "path_of (ts @ [j]) \<noteq> ?p" and old: "files s (path_of (ts @ [j])) = Some b"
      by (auto split: if_splits)
    with iu vt obtain pa' cs' where o: "name (heap s b) = j" "files s (path_of ts) = Some pa'"
      "children (heap s pa') = Some cs'" "map_of cs' j = Some b"
      unfolding inv_up_def by blast
    have np: "path_of ts \<noteq> ?p"
    proof
      assume "path_of ts = ?p"
      with o a have "pa' = a" by simp
      with o leaf show False by auto
    qed
    show "name (heap ?s' b) = j \<and> (\<exists>pa' cs'. files ?s' (path_of ts) = Some pa'
            \<and> children (heap ?s' pa') = Some cs' \<and> map_of cs' j = Some b)"
    proof (cases "pa' = pa")
      case True
      with o par inn have "path_of ts = path_of ss" by (auto dest: files_inj)
      with vt vss have "ts = ss" by (simp add: path_of_inj_iff)
      with ne have "j \<noteq> k" by auto
      with True o np cs show ?thesis by (auto simp: delete_conv')
    next
      case False
      with o np show ?thesis by auto
    qed
  qed
  have 5: "inv_down ?s'"
    unfolding inv_down_def
  proof (intro allI impI)
    fix ts b cs' j c
    assume vt: "list_all valid_name ts" and qb: "files ?s' (path_of ts) = Some b"
      and ch: "children (heap ?s' b) = Some cs'" and m: "map_of cs' j = Some c"
    from qb have ne: "path_of ts \<noteq> ?p" and old: "files s (path_of ts) = Some b"
      by (auto split: if_splits)
    show "valid_name j \<and> files ?s' (path_of (ts @ [j])) = Some c"
    proof (cases "b = pa")
      case True
      with old par inn have "path_of ts = path_of ss" by (auto dest: files_inj)
      with vt vss have "ts = ss" by (simp add: path_of_inj_iff)
      from True ch cs have cs': "cs' = AList.delete k cs" by auto
      with m have "j \<noteq> k" "map_of cs j = Some c" by (auto simp: delete_conv' split: if_splits)
      with idn vss par cs have "valid_name j" "files s (path_of (ss @ [j])) = Some c"
        by (auto simp: inv_down_def)
      moreover have "path_of (ss @ [j]) \<noteq> ?p"
        using \<open>j \<noteq> k\<close> \<open>valid_name j\<close> v by (simp add: path_of_inj_iff)
      ultimately show ?thesis using \<open>ts = ss\<close> by simp
    next
      case False
      with ch have "children (heap s b) = Some cs'" by auto
      with idn vt old m have vj: "valid_name j" and f: "files s (path_of (ts @ [j])) = Some c"
        by (auto simp: inv_down_def)
      have "path_of (ts @ [j]) \<noteq> ?p"
      proof
        assume "path_of (ts @ [j]) = ?p"
        with vt vj v have "ts = ss" by (simp add: path_of_inj_iff)
        with old par False show False by simp
      qed
      with vj f show ?thesis by simp
    qed
  qed
  from 1 2 3 4 5 show ?thesis by (simp add: vfs_inv_def)
qed

section \<open>Deleting a subtree\<close>

declare deleteFile.simps [simp del] updateChildrenPaths.simps [simp del]

lemma for_of_append:
  "for_of body (xs @ ys) s = (case for_of body xs s of Inl e \<Rightarrow> Inl e | Inr s' \<Rightarrow> for_of body ys s')"
  by (induction xs arbitrary: s) (auto split: sum.splits)

lemma map_of_empty_Nil: "map_of cs = Map.empty \<Longrightarrow> cs = []"
  by (cases cs) (auto simp: fun_eq_iff split: if_splits)

lemma inv_upD:
  assumes "vfs_inv s" "list_all valid_name (ss @ [k])" "files s (path_of (ss @ [k])) = Some a"
  shows "name (heap s a) = k"
    and "\<exists>pa cs. files s (path_of ss) = Some pa \<and> children (heap s pa) = Some cs \<and> map_of cs k = Some a"
  using inv_D(4) [OF assms(1)] assms(2,3) unfolding inv_up_def by blast+

lemma inv_downD:
  assumes "vfs_inv s" "list_all valid_name ss" "files s (path_of ss) = Some a"
    "children (heap s a) = Some cs" "map_of cs k = Some c"
  shows "valid_name k" and "files s (path_of (ss @ [k])) = Some c"
  using inv_D(5) [OF assms(1)] assms(2-5) unfolding inv_down_def by blast+

lemma inv_nodesD:
  assumes "vfs_inv s" "files s p = Some a"
  shows "a < fresh s" "path (heap s a) = p" "\<exists>ss. list_all valid_name ss \<and> p = path_of ss"
    "type (heap s a) = Directory \<longleftrightarrow> children (heap s a) \<noteq> None"
    "children (heap s a) = Some cs \<Longrightarrow> distinct (map fst cs)"
  using inv_D(3) [OF assms(1)] assms(2) unfolding inv_nodes_def by blast+

lemma subtree_covered:
  assumes inv: "vfs_inv s" and v: "list_all valid_name ts" and fl: "files s (path_of ts) = Some fl"
    and x: "x \<in> below ts" "x \<noteq> path_of ts" "files s x \<noteq> None"
  shows "\<exists>j c cs. children (heap s fl) = Some cs \<and> map_of cs j = Some c \<and> x \<in> below (ts @ [j])"
proof -
  from x(1) obtain us where us: "list_all valid_name us" "x = path_of (ts @ us)"
    by (auto simp: below_def)
  with x(2) obtain j vs where jv: "us = j # vs" by (cases us) auto
  have vj: "list_all valid_name ((ts @ [j]) @ vs)" using v us jv by simp
  have "files s (path_of ((ts @ [j]) @ vs)) \<noteq> None" using x(3) us jv by simp
  from inv_prefix_closed [OF inv vj this] obtain c where c: "files s (path_of (ts @ [j])) = Some c"
    by auto
  have vtj: "list_all valid_name (ts @ [j])" using vj by simp
  from inv_upD(2) [OF inv vtj c] fl obtain cs where "children (heap s fl) = Some cs" "map_of cs j = Some c"
    by auto
  moreover have "x \<in> below (ts @ [j])"
    unfolding below_def using us jv by auto
  ultimately show ?thesis by blast
qed

lemma no_children_if_subtree_empty:
  assumes inv: "vfs_inv s" and v: "list_all valid_name ts" and fl: "files s (path_of ts) = Some fl"
    and e: "\<And>x. x \<in> below ts \<Longrightarrow> x \<noteq> path_of ts \<Longrightarrow> files s x = None"
  shows "children (heap s fl) = None \<or> children (heap s fl) = Some []"
proof (cases "children (heap s fl)")
  case None
  then show ?thesis by simp
next
  case (Some cs)
  have "map_of cs = Map.empty"
  proof (rule ccontr)
    assume "map_of cs \<noteq> Map.empty"
    then obtain j c where jc: "map_of cs j = Some c" by (auto simp: fun_eq_iff)
    from inv_downD [OF inv v fl Some jc] have vj: "valid_name j"
      and c: "files s (path_of (ts @ [j])) = Some c" by auto
    have "path_of (ts @ [j]) \<in> below ts" using below_self [of "ts @ [j]"] below_child [OF vj] by auto
    moreover have "path_of (ts @ [j]) \<noteq> path_of ts"
      using v vj by (simp add: path_of_inj_iff)
    ultimately show False using e c by fastforce
  qed
  then show ?thesis using Some by (simp add: map_of_empty_Nil)
qed

lemma deleteFile_inv:
  "vfs_inv s \<Longrightarrow> list_all valid_name ts \<Longrightarrow> normalizePath p0 = path_of ts \<Longrightarrow> 0 < n \<Longrightarrow>
   (\<forall>x\<in>dom (files s). length x < length (path_of ts) + n) \<Longrightarrow>
   \<exists>b s'. deleteFile n p0 s = Inr (b, s') \<and> vfs_inv s' \<and> same_fields s s'
      \<and> files s' = (if files s (path_of ts) = None \<or> ts = [] then files s
                    else (\<lambda>x. if x \<in> below ts then None else files s x))
      \<and> b = (files s (path_of ts) \<noteq> None \<and> ts \<noteq> [])"
proof (induction n arbitrary: s p0 ts)
  case 0
  then show ?case by simp
next
  case (Suc n)
  note inv = Suc.prems(1) and v = Suc.prems(2) and np = Suc.prems(3) and fuel = Suc.prems(5)
  show ?case
  proof (cases "files s (path_of ts)")
    case None
    then have "deleteFile (Suc n) p0 s = Inr (False, s)"
      by (simp add: deleteFile.simps np Let_def)
    with inv None show ?thesis by auto
  next
    case (Some fl)
    show ?thesis
    proof (cases "ts = []")
      case True
      then have "deleteFile (Suc n) p0 s = Inr (False, s)"
        using Some by (simp add: deleteFile.simps np Let_def path_of_def)
      with inv True show ?thesis by auto
    next
      case False
      then obtain ss k where ts: "ts = ss @ [k]" by (cases ts rule: rev_cases) auto
      have vss: "list_all valid_name ss" and vk: "valid_name k" using v ts by auto
      have nroot: "path_of ts \<noteq> ''/''" unfolding ts using vk by (rule path_of_snoc_not_root)
      have gp: "getParentPath (path_of ts) = path_of ss"
        using v unfolding ts by (rule getParentPath_path_of)
      from inv_upD [OF inv v [unfolded ts] Some [unfolded ts]]
      obtain pa csp where nm: "name (heap s fl) = k" and pa: "files s (path_of ss) = Some pa"
        and csp: "children (heap s pa) = Some csp" and "map_of csp k = Some fl"
        by auto
      have padir: "type (heap s pa) = Directory" using inv_nodesD(4) [OF inv pa] csp by simp
      define body where "body = (\<lambda>(k :: string, child) s'.
             if map_of (the (children (heap s' fl))) k = Some child
             then map_sum id snd (deleteFile n (path (heap s' child)) s')
             else Inr s')"
      define J where "J pre s' \<longleftrightarrow> vfs_inv s' \<and> same_fields s s'
          \<and> files s' = (\<lambda>x. if \<exists>j\<in>fst ` set pre. x \<in> below (ts @ [j]) then None else files s x)"
        for pre :: "(string \<times> addr) list" and s'
      have loop: "\<exists>s1. (if type (heap s fl) = Directory \<and> children (heap s fl) \<noteq> None
                         then for_of body (the (children (heap s fl))) s else Inr s) = Inr s1
             \<and> vfs_inv s1 \<and> same_fields s s1
             \<and> files s1 = (\<lambda>x. if x \<in> below ts \<and> x \<noteq> path_of ts then None else files s x)
             \<and> (children (heap s1 fl) = None \<or> children (heap s1 fl) = Some [])"
      proof (cases "type (heap s fl) = Directory \<and> children (heap s fl) \<noteq> None")
        case nd: False
        then have none: "children (heap s fl) = None" using inv_nodesD(4) [OF inv Some] by auto
        have e: "files s x = None" if "x \<in> below ts" "x \<noteq> path_of ts" for x
          using subtree_covered [OF inv v Some that] none by (cases "files s x") auto
        then have "files s = (\<lambda>x. if x \<in> below ts \<and> x \<noteq> path_of ts then None else files s x)"
          by (auto simp: fun_eq_iff)
        with nd inv none show ?thesis by auto
      next
        case dir: True
        then obtain cs0 where cs0: "children (heap s fl) = Some cs0" by auto
        have dist: "distinct (map fst cs0)" using inv_nodesD(5) [OF inv Some cs0] .
        have step: "\<exists>s1. for_of body rem s' = Inr s1 \<and> J cs0 s1"
          if "cs0 = pre @ rem" "J pre s'" for pre rem s'
          using that
        proof (induction rem arbitrary: pre s')
          case Nil
          then show ?case by simp
        next
          case (Cons jc rem)
          obtain j c where jc: "jc = (j, c)" by (cases jc)
          note split = Cons.prems(1) [unfolded jc]
          from Cons.prems(2) have inv': "vfs_inv s'" and sf': "same_fields s s'"
            and f': "files s' = (\<lambda>x. if \<exists>j\<in>fst ` set pre. x \<in> below (ts @ [j]) then None else files s x)"
            by (auto simp: J_def)
          have "(j, c) \<in> set cs0" using split by simp
          then have m0: "map_of cs0 j = Some c" by (rule map_of_is_SomeI [OF dist])
          from inv_downD [OF inv v Some cs0 m0] have vj: "valid_name j"
            and c: "files s (path_of (ts @ [j])) = Some c" by auto
          have vtj: "list_all valid_name (ts @ [j])" using v vj by simp
          have notin: "j \<notin> fst ` set pre" using dist split by auto
          have others: "path_of (ts @ [j]) \<notin> below (ts @ [i])" if "i \<in> fst ` set pre" for i
          proof -
            from that obtain ci where "(i, ci) \<in> set pre" by auto
            then have "(i, ci) \<in> set cs0" using split by simp
            then have "map_of cs0 i = Some ci" by (rule map_of_is_SomeI [OF dist])
            from inv_downD(1) [OF inv v Some cs0 this] have "list_all valid_name (ts @ [i])"
              using v by simp
            moreover have "i \<noteq> j" using that notin by auto
            ultimately show ?thesis
              using below_disjoint [OF vtj, of i] below_self [of "ts @ [j]"] by auto
          qed
          have c': "files s' (path_of (ts @ [j])) = Some c"
            using c others by (auto simp: f')
          have fl': "files s' (path_of ts) = Some fl"
          proof -
            have "path_of ts \<notin> below (ts @ [i])" if "i \<in> fst ` set pre" for i
            proof -
              from that obtain ci where "(i, ci) \<in> set pre" by auto
            then have "(i, ci) \<in> set cs0" using split by simp
              then have "map_of cs0 i = Some ci" by (rule map_of_is_SomeI [OF dist])
              from inv_downD(1) [OF inv v Some cs0 this] have "list_all valid_name (ts @ [i])"
                using v by simp
              then show ?thesis by (rule path_not_below_child)
            qed
            with Some show ?thesis by (auto simp: f')
          qed
          from inv_upD(2) [OF inv' vtj c'] fl'
          have live: "map_of (the (children (heap s' fl))) j = Some c" by auto
          have pc: "path (heap s' c) = path_of (ts @ [j])" using inv_nodesD(2) [OF inv' c'] .
          have np': "normalizePath (path (heap s' c)) = path_of (ts @ [j])"
            unfolding pc using vtj by (rule normalizePath_path_of)
          have len: "length (path_of ts) < length (path_of (ts @ [j]))"
            using vj by (intro length_path_of_snoc) (simp add: valid_name_def)
          have "path_of (ts @ [j]) \<in> dom (files s)" using c by auto
          with fuel have "length (path_of (ts @ [j])) < length (path_of ts) + Suc n" by blast
          with len have npos: "0 < n" by arith
          have fuel': "\<forall>x\<in>dom (files s'). length x < length (path_of (ts @ [j])) + n"
          proof
            fix x assume "x \<in> dom (files s')"
            then have "x \<in> dom (files s)" by (auto simp: f' split: if_splits)
            with fuel have "length x < length (path_of ts) + Suc n" by blast
            with len show "length x < length (path_of (ts @ [j])) + n" by arith
          qed
          from Suc.IH [OF inv' vtj np' npos fuel'] c'
          obtain b s'' where d: "deleteFile n (path (heap s' c)) s' = Inr (b, s'')"
            and inv'': "vfs_inv s''" and sf'': "same_fields s' s''"
            and f'': "files s'' = (\<lambda>x. if x \<in> below (ts @ [j]) then None else files s' x)"
            by auto
          have b1: "body jc s' = Inr s''" using live d by (simp add: body_def jc)
          have "J (pre @ [jc]) s''"
            unfolding J_def using inv'' same_fields_trans [OF sf' sf'']
            by (auto simp: f'' f' jc fun_eq_iff)
          moreover have "cs0 = (pre @ [jc]) @ rem" using Cons.prems(1) by simp
          ultimately obtain s1 where "for_of body rem s'' = Inr s1 \<and> J cs0 s1"
            using Cons.IH by blast
          with b1 show ?case by simp
        qed
        have "J [] s" using inv by (simp add: J_def)
        with step [of "[]" cs0 s] obtain s1 where l1: "for_of body cs0 s = Inr s1" and j1: "J cs0 s1"
          by auto
        from j1 have inv1: "vfs_inv s1" and sf1: "same_fields s s1"
          and f1: "files s1 = (\<lambda>x. if \<exists>j\<in>fst ` set cs0. x \<in> below (ts @ [j]) then None else files s x)"
          by (auto simp: J_def)
        have key: "(\<exists>j\<in>fst ` set cs0. x \<in> below (ts @ [j])) \<Longrightarrow> x \<in> below ts \<and> x \<noteq> path_of ts" for x
        proof -
          assume "\<exists>j\<in>fst ` set cs0. x \<in> below (ts @ [j])"
          then obtain j cj where "(j, cj) \<in> set cs0" and xj: "x \<in> below (ts @ [j])" by auto
          from map_of_is_SomeI [OF dist this(1)] have "map_of cs0 j = Some cj" .
          from inv_downD(1) [OF inv v Some cs0 this] have vj: "valid_name j" .
          with v have "list_all valid_name (ts @ [j])" by simp
          from path_not_below_child [OF this] xj below_child [OF vj, of ts]
          show ?thesis by auto
        qed
        have f1': "files s1 = (\<lambda>x. if x \<in> below ts \<and> x \<noteq> path_of ts then None else files s x)"
        proof
          fix x
          show "files s1 x = (if x \<in> below ts \<and> x \<noteq> path_of ts then None else files s x)"
          proof (cases "\<exists>j\<in>fst ` set cs0. x \<in> below (ts @ [j])")
            case True
            with key [OF True] show ?thesis by (simp add: f1)
          next
            case nb: False
            show ?thesis
            proof (cases "x \<in> below ts \<and> x \<noteq> path_of ts \<and> files s x \<noteq> None")
              case True
              with subtree_covered [OF inv v Some, of x] cs0
              obtain j c where "map_of cs0 j = Some c" "x \<in> below (ts @ [j])" by auto
              then have "j \<in> fst ` set cs0" by (auto dest: map_of_SomeD intro: rev_image_eqI)
              with \<open>x \<in> below (ts @ [j])\<close> nb show ?thesis by blast
            next
              case False
              with nb show ?thesis by (auto simp: f1)
            qed
          qed
        qed
        have fl1: "files s1 (path_of ts) = Some fl" using Some by (simp add: f1')
        have "children (heap s1 fl) = None \<or> children (heap s1 fl) = Some []"
          by (rule no_children_if_subtree_empty [OF inv1 v fl1]) (simp add: f1')
        with dir cs0 l1 inv1 sf1 f1' show ?thesis by auto
      qed
      then obtain s1 where s1: "(if type (heap s fl) = Directory \<and> children (heap s fl) \<noteq> None
                         then for_of body (the (children (heap s fl))) s else Inr s) = Inr s1"
        and inv1: "vfs_inv s1" and sf1: "same_fields s s1"
        and f1: "files s1 = (\<lambda>x. if x \<in> below ts \<and> x \<noteq> path_of ts then None else files s x)"
        and leaf1: "children (heap s1 fl) = None \<or> children (heap s1 fl) = Some []"
        by blast
      have file1: "files s1 (path_of (ss @ [k])) = Some fl" using Some by (simp add: f1 ts)
      have "path_of ss \<notin> below ts" unfolding ts using v [unfolded ts] by (rule path_not_below_child)
      then have pa1: "files s1 (path_of ss) = Some pa" using pa by (simp add: f1)
      have "type (heap s1 pa) = Directory" using padir sf1 by (simp add: same_fields_def)
      then obtain cs1 where cs1: "children (heap s1 pa) = Some cs1"
        using inv_dir_children [OF inv1 pa1] by auto
      have nm1: "name (heap s1 fl) = k" using nm sf1 by (simp add: same_fields_def)
      let ?s' = "s1\<lparr>heap := (heap s1)(pa := (heap s1 pa)\<lparr>children := Some (AList.delete k cs1)\<rparr>),
                   files := (files s1)(path_of (ss @ [k]) := None)\<rparr>"
      have "deleteFile (Suc n) p0 s =
          (case (if type (heap s fl) = Directory \<and> children (heap s fl) \<noteq> None
                 then for_of body (the (children (heap s fl))) s else Inr s) of
             Inl e \<Rightarrow> Inl e
           | Inr s1 \<Rightarrow>
               (case children_delete pa (name (heap s1 fl)) s1 of
                  Inl e \<Rightarrow> Inl e
                | Inr s2 \<Rightarrow> Inr (True, s2\<lparr>files := (files s2)(path_of ts := None)\<rparr>)))"
        unfolding body_def using Some nroot pa padir
        by (simp add: deleteFile.simps np Let_def getParentNode_def gp
            split del: if_split)
      also have "\<dots> = Inr (True, ?s')"
        unfolding s1 by (simp add: children_delete_def cs1 nm1 ts)
      finally have res: "deleteFile (Suc n) p0 s = Inr (True, ?s')" .
      have "vfs_inv ?s'"
        using inv_remove_leaf [OF inv1 v [unfolded ts] file1 leaf1 pa1 cs1] .
      moreover have "same_fields s ?s'"
        using sf1 by (auto simp: same_fields_def)
      moreover have "files ?s' = (\<lambda>x. if x \<in> below ts then None else files s x)"
        using below_self [of ts] by (auto simp: f1 ts fun_eq_iff)
      ultimately show ?thesis using res Some False by auto
    qed
  qed
qed

section \<open>Moving a subtree\<close>

text \<open>
  \<open>move_ok\<close> collects what holds when \<open>rename\<close> starts to mutate: the tree satisfies the
  invariant, the source \<open>src\<close> is in the table under \<open>os\<close>, nothing is under \<open>ns\<close>,
  \<open>ns\<close> is not inside the subtree of \<open>os\<close>, and the parents \<open>op\<close> and \<open>np\<close> exist, the
  new one being a directory. \<open>relinked\<close> is the state after the source was taken out of
  its old parent, renamed, put into the new parent and re-entered in the table;
  \<open>moved U\<close> is that state after \<open>updateChildrenPaths\<close> has rewritten the descendants
  whose paths relative to the source are in \<open>U\<close>; \<open>desc s os us\<close> are the relative paths
  of the strict descendants of the node at \<open>os @ us\<close>; \<open>renamed\<close> is the final state.
\<close>

definition move_ok ::
  "VirtualFileSystem \<Rightarrow> string list \<Rightarrow> string list \<Rightarrow> addr \<Rightarrow> addr \<Rightarrow> addr \<Rightarrow> bool" where
  "move_ok s os ns src op np \<longleftrightarrow>
     vfs_inv s \<and> list_all valid_name os \<and> list_all valid_name ns \<and> os \<noteq> [] \<and> ns \<noteq> []
     \<and> files s (path_of os) = Some src \<and> files s (path_of ns) = None \<and> \<not> prefix os ns
     \<and> files s (path_of (butlast os)) = Some op \<and> files s (path_of (butlast ns)) = Some np
     \<and> type (heap s np) = Directory"

definition relinked ::
  "VirtualFileSystem \<Rightarrow> string list \<Rightarrow> string list \<Rightarrow> addr \<Rightarrow> addr \<Rightarrow> addr \<Rightarrow> VirtualFileSystem" where
  "relinked s os ns src op np =
     (let sb = s\<lparr>heap := (heap s)(op := (heap s op)
                   \<lparr>children := Some (AList.delete (last os) (the (children (heap s op))))\<rparr>)\<rparr>;
          sc = sb\<lparr>heap := (heap sb)(src := (heap sb src)\<lparr>name := last ns, path := path_of ns\<rparr>)\<rparr>;
          sd = sc\<lparr>heap := (heap sc)(np := (heap sc np)
                   \<lparr>children := Some (AList.update (last ns) src (the (children (heap sc np))))\<rparr>)\<rparr>
      in sd\<lparr>files := ((files sd)(path_of os := None))(path_of ns \<mapsto> src)\<rparr>)"

definition desc :: "VirtualFileSystem \<Rightarrow> string list \<Rightarrow> string list \<Rightarrow> string list set" where
  "desc s os us = {us @ vs | vs. vs \<noteq> [] \<and> list_all valid_name vs
                      \<and> files s (path_of (os @ us @ vs)) \<noteq> None}"

definition moved ::
  "string list set \<Rightarrow> VirtualFileSystem \<Rightarrow> string list \<Rightarrow> string list \<Rightarrow> VirtualFileSystem
     \<Rightarrow> VirtualFileSystem" where
  "moved U s os ns sf =
     sf\<lparr>heap := (\<lambda>a. if \<exists>us\<in>U. files s (path_of (os @ us)) = Some a
                     then (heap sf a)\<lparr>path := path_of ns @ drop (length (path_of os)) (path (heap sf a))\<rparr>
                     else heap sf a),
        files := (\<lambda>x. if x \<in> (\<lambda>us. path_of (ns @ us)) ` U
                       then files s (path_of os @ drop (length (path_of ns)) x)
                       else if x \<in> (\<lambda>us. path_of (os @ us)) ` U then None
                       else files sf x)\<rparr>"

lemma move_okD:
  assumes "move_ok s os ns src op np"
  shows "vfs_inv s" "list_all valid_name os" "list_all valid_name ns" "os \<noteq> []" "ns \<noteq> []"
    "files s (path_of os) = Some src" "files s (path_of ns) = None" "\<not> prefix os ns"
    "files s (path_of (butlast os)) = Some op" "files s (path_of (butlast ns)) = Some np"
    "type (heap s np) = Directory"
  using assms by (auto simp: move_ok_def)

lemma move_not_prefix_rev:
  assumes "move_ok s os ns src op np"
  shows "\<not> prefix ns os"
proof
  assume "prefix ns os"
  then obtain w where "os = ns @ w" by (auto simp: prefix_def)
  with move_okD [OF assms] have "list_all valid_name (ns @ w)" "files s (path_of (ns @ w)) \<noteq> None"
    by auto
  from inv_prefix_closed [OF move_okD(1) [OF assms] this] move_okD(7) [OF assms]
  show False by simp
qed

lemma move_nothing_below_new:
  assumes "move_ok s os ns src op np" "list_all valid_name us"
  shows "files s (path_of (ns @ us)) = None"
proof (rule ccontr)
  assume "files s (path_of (ns @ us)) \<noteq> None"
  moreover have "list_all valid_name (ns @ us)" using move_okD(3) [OF assms(1)] assms(2) by simp
  ultimately have "files s (path_of ns) \<noteq> None"
    using inv_prefix_closed [OF move_okD(1) [OF assms(1)]] by blast
  with move_okD(7) [OF assms(1)] show False by simp
qed

lemma path_rewrite:
  "os \<noteq> [] \<Longrightarrow> ns \<noteq> [] \<Longrightarrow>
     path_of os @ drop (length (path_of ns)) (path_of (ns @ us)) = path_of (os @ us)"
  by (simp add: path_of_append)

lemma move_parents:
  assumes "move_ok s os ns src op np"
  shows "src \<noteq> op" "src \<noteq> np" "\<exists>cso. children (heap s op) = Some cso \<and> map_of cso (last os) = Some src"
    "\<exists>csn. children (heap s np) = Some csn" "name (heap s src) = last os"
proof -
  note m = move_okD [OF assms]
  have os: "os = butlast os @ [last os]" and ns: "ns = butlast ns @ [last ns]" using m by auto
  have v1: "list_all valid_name (butlast os @ [last os])" using m os by simp
  have f1: "files s (path_of (butlast os @ [last os])) = Some src" using m os by simp
  from inv_upD [OF m(1) v1 f1] m(9)
  show "\<exists>cso. children (heap s op) = Some cso \<and> map_of cso (last os) = Some src"
    and "name (heap s src) = last os" by auto
  show "\<exists>csn. children (heap s np) = Some csn"
    using inv_dir_children [OF m(1) m(10) m(11)] .
  have "path_of (butlast os) \<noteq> path_of os"
    using v1 os m(2) by (metis append_Nil2 list_all_append not_Cons_self2 path_of_inject same_append_eq)
  with m(6,9) files_inj [OF inv_D(3) [OF m(1)]] show "src \<noteq> op" by blast
  have "path_of (butlast ns) \<noteq> path_of os"
  proof
    assume e: "path_of (butlast ns) = path_of os"
    have "list_all valid_name (butlast ns)" using m(3) ns by (metis list_all_append)
    with e m(2) have "butlast ns = os" by (simp add: path_of_inj_iff)
    with ns have "prefix os ns" by (metis prefixI)
    with m(8) show False by simp
  qed
  with m(6,10) files_inj [OF inv_D(3) [OF m(1)]] show "src \<noteq> np" by blast
qed

definition renamed ::
  "VirtualFileSystem \<Rightarrow> string list \<Rightarrow> string list \<Rightarrow> addr \<Rightarrow> addr \<Rightarrow> addr \<Rightarrow> VirtualFileSystem" where
  "renamed s os ns src op np = moved (desc s os []) s os ns (relinked s os ns src op np)"

lemma desc_Nil: "desc s os [] = {vs. vs \<noteq> [] \<and> list_all valid_name vs \<and> files s (path_of (os @ vs)) \<noteq> None}"
  by (auto simp: desc_def)

lemma in_new_image:
  assumes "list_all valid_name ns" "list_all valid_name xs" "U \<subseteq> desc s os []"
  shows "path_of xs \<in> (\<lambda>us. path_of (ns @ us)) ` U \<longleftrightarrow> (\<exists>us\<in>U. xs = ns @ us)"
proof
  assume "path_of xs \<in> (\<lambda>us. path_of (ns @ us)) ` U"
  then obtain us where us: "us \<in> U" "path_of xs = path_of (ns @ us)" by auto
  with assms(3) have "list_all valid_name us" by (auto simp: desc_Nil)
  with assms(1,2) us(2) have "xs = ns @ us" by (simp add: path_of_inj_iff)
  with us(1) show "\<exists>us\<in>U. xs = ns @ us" by blast
qed auto

lemma renamed_files:
  assumes m: "move_ok s os ns src op np" and v: "list_all valid_name xs"
  shows "files (renamed s os ns src op np) (path_of xs) =
     (if prefix ns xs then files s (path_of (os @ drop (length ns) xs))
      else if prefix os xs then None else files s (path_of xs))"
proof -
  note mk = move_okD [OF m]
  let ?D = "desc s os []"
  have inN: "path_of xs \<in> (\<lambda>us. path_of (ns @ us)) ` ?D \<longleftrightarrow> (\<exists>us\<in>?D. xs = ns @ us)"
    by (rule in_new_image [OF mk(3) v subset_refl])
  have inO: "path_of xs \<in> (\<lambda>us. path_of (os @ us)) ` ?D \<longleftrightarrow> (\<exists>us\<in>?D. xs = os @ us)"
    by (rule in_new_image [OF mk(2) v subset_refl])
  have sf: "files (relinked s os ns src op np) = ((files s)(path_of os := None))(path_of ns \<mapsto> src)"
    by (simp add: relinked_def Let_def)
  have fg: "files (renamed s os ns src op np) (path_of xs) =
      (if \<exists>us\<in>?D. xs = ns @ us then files s (path_of os @ drop (length (path_of ns)) (path_of xs))
       else if \<exists>us\<in>?D. xs = os @ us then None
       else (((files s)(path_of os := None))(path_of ns \<mapsto> src)) (path_of xs))"
    unfolding renamed_def moved_def by (simp add: inN inO sf)
  show ?thesis
  proof (cases "prefix ns xs")
    case True
    then obtain us where xs: "xs = ns @ us" by (auto simp: prefix_def)
    have vus: "list_all valid_name us" using v xs by simp
    show ?thesis
    proof (cases "us = []")
      case True
      have "\<not> (\<exists>us\<in>?D. ns = ns @ us)" by (auto simp: desc_Nil)
      moreover have "\<not> (\<exists>us\<in>?D. ns = os @ us)" using mk(8) by (auto simp: prefix_def)
      ultimately show ?thesis using True xs mk(6) fg by simp
    next
      case False
      show ?thesis
      proof (cases "files s (path_of (os @ us))")
        case None
        then have a: "\<not> (\<exists>us\<in>?D. xs = ns @ us)" using xs by (auto simp: desc_Nil)
        have b: "\<not> (\<exists>us'\<in>?D. xs = os @ us')"
        proof
          assume "\<exists>us'\<in>?D. xs = os @ us'"
          then obtain us' where "ns @ us = os @ us'" using xs by auto
          then have "prefix ns os \<or> prefix os ns"
            by (metis append_eq_append_conv2 prefixI)
          with mk(8) move_not_prefix_rev [OF m] show False by simp
        qed
        have c: "path_of xs \<noteq> path_of ns" using False v mk(3) xs by (simp add: path_of_inj_iff)
        have d: "path_of xs \<noteq> path_of os"
        proof
          assume "path_of xs = path_of os"
          with v mk(2) have "xs = os" by (simp add: path_of_inj_iff)
          with xs have "prefix ns os" by (simp add: prefix_def)
          with move_not_prefix_rev [OF m] show False by simp
        qed
        have "files s (path_of xs) = None" unfolding xs by (rule move_nothing_below_new [OF m vus])
        with a b c d None xs fg show ?thesis by simp
      next
        case (Some a)
        then have "us \<in> ?D" using False vus by (simp add: desc_Nil)
        then have "\<exists>us\<in>?D. xs = ns @ us" using xs by blast
        then show ?thesis using xs mk(4,5) fg by (simp add: path_rewrite)
      qed
    qed
  next
    case nn: False
    then have a: "\<not> (\<exists>us\<in>?D. xs = ns @ us)" by (auto simp: prefix_def)
    have c: "path_of xs \<noteq> path_of ns" using nn v mk(3) by (auto simp: path_of_inj_iff)
    show ?thesis
    proof (cases "prefix os xs")
      case True
      then obtain us where xs: "xs = os @ us" by (auto simp: prefix_def)
      have vus: "list_all valid_name us" using v xs by simp
      show ?thesis
      proof (cases "us = [] \<or> files s (path_of xs) = None")
        case True
        then show ?thesis using a c nn xs \<open>prefix os xs\<close> fg by (auto simp: desc_Nil)
      next
        case False
        then have "us \<in> ?D" using vus xs by (simp add: desc_Nil)
        then have "\<exists>us\<in>?D. xs = os @ us" using xs by blast
        with a nn \<open>prefix os xs\<close> fg show ?thesis by simp
      qed
    next
      case False
      then have b: "\<not> (\<exists>us\<in>?D. xs = os @ us)" by (auto simp: prefix_def)
      have d: "path_of xs \<noteq> path_of os" using False v mk(2) by (auto simp: path_of_inj_iff)
      from a b c d nn False fg show ?thesis by simp
    qed
  qed
qed

lemma renamed_fields:
  assumes m: "move_ok s os ns src op np"
  shows "type (heap (renamed s os ns src op np) a) = type (heap s a)"
    and "content (heap (renamed s os ns src op np) a) = content (heap s a)"
    and "name (heap (renamed s os ns src op np) a) = (if a = src then last ns else name (heap s a))"
    and "children (heap (renamed s os ns src op np) a) =
          (if a = np then Some (AList.update (last ns) src
                (if np = op then AList.delete (last os) (the (children (heap s op)))
                 else the (children (heap s np))))
           else if a = op then Some (AList.delete (last os) (the (children (heap s op))))
           else children (heap s a))"
    and "fresh (renamed s os ns src op np) = fresh s"
    and "root (renamed s os ns src op np) = root s"
  using move_parents(1,2) [OF m]
  by (auto simp: renamed_def moved_def relinked_def Let_def)

lemma renamed_path_moved:
  assumes m: "move_ok s os ns src op np" and v: "list_all valid_name us"
    and a: "files s (path_of (os @ us)) = Some a"
  shows "path (heap (renamed s os ns src op np) a) = path_of (ns @ us)"
proof -
  note mk = move_okD [OF m]
  have pa: "path (heap s a) = path_of (os @ us)" using inv_nodesD(2) [OF mk(1) a] .
  show ?thesis
  proof (cases "us = []")
    case True
    with a mk(6) have "a = src" by simp
    moreover have "\<not> (\<exists>us\<in>desc s os []. files s (path_of (os @ us)) = Some src)"
    proof
      assume "\<exists>us\<in>desc s os []. files s (path_of (os @ us)) = Some src"
      then obtain vs where vs: "vs \<noteq> []" "list_all valid_name vs" "files s (path_of (os @ vs)) = Some src"
        by (auto simp: desc_Nil)
      from files_inj [OF inv_D(3) [OF mk(1)] vs(3) mk(6)] vs(2) mk(2)
      have "os @ vs = os" by (simp add: path_of_inj_iff)
      with vs(1) show False by simp
    qed
    ultimately show ?thesis using True move_parents(1,2) [OF m]
      by (simp add: renamed_def moved_def relinked_def Let_def)
  next
    case False
    then have "us \<in> desc s os []" using v a by (simp add: desc_Nil)
    then have ex: "\<exists>us\<in>desc s os []. files s (path_of (os @ us)) = Some a" using a by blast
    have "a \<noteq> src"
    proof
      assume "a = src"
      with a mk(6) files_inj [OF inv_D(3) [OF mk(1)]] have "path_of (os @ us) = path_of os" by blast
      with v mk(2) have "os @ us = os" by (simp add: path_of_inj_iff)
      with False show False by simp
    qed
    then have "path (heap (relinked s os ns src op np) a) = path (heap s a)"
      by (simp add: relinked_def Let_def)
    with ex pa mk(4,5) show ?thesis
      by (simp add: renamed_def moved_def path_of_append)
  qed
qed

lemma prefix_valid_below:
  assumes "list_all valid_name os" "list_all valid_name xs"
  shows "path_of xs \<in> below os \<longleftrightarrow> prefix os xs"
proof
  assume "path_of xs \<in> below os"
  then obtain us where "list_all valid_name us" "path_of xs = path_of (os @ us)"
    by (auto simp: below_def)
  with assms have "xs = os @ us" by (simp add: path_of_inj_iff)
  then show "prefix os xs" by simp
next
  assume "prefix os xs"
  then obtain us where "xs = os @ us" by (auto simp: prefix_def)
  with assms(2) show "path_of xs \<in> below os" by (auto simp: below_def)
qed

lemma renamed_path_other:
  assumes m: "move_ok s os ns src op np" and v: "list_all valid_name xs"
    and a: "files s (path_of xs) = Some a" and nb: "\<not> prefix os xs"
  shows "path (heap (renamed s os ns src op np) a) = path_of xs"
proof -
  note mk = move_okD [OF m]
  have pa: "path (heap s a) = path_of xs" using inv_nodesD(2) [OF mk(1) a] .
  have "a \<noteq> src"
  proof
    assume "a = src"
    with a mk(6) files_inj [OF inv_D(3) [OF mk(1)]] have "path_of xs = path_of os" by blast
    with v mk(2) have "xs = os" by (simp add: path_of_inj_iff)
    with nb show False by simp
  qed
  moreover have "\<not> (\<exists>us\<in>desc s os []. files s (path_of (os @ us)) = Some a)"
  proof
    assume "\<exists>us\<in>desc s os []. files s (path_of (os @ us)) = Some a"
    then obtain vs where vs: "list_all valid_name vs" "files s (path_of (os @ vs)) = Some a"
      by (auto simp: desc_Nil)
    from files_inj [OF inv_D(3) [OF mk(1)] vs(2) a] vs(1) mk(2) v
    have "os @ vs = xs" by (simp add: path_of_inj_iff)
    with nb show False by auto
  qed
  ultimately show ?thesis using pa
    by (auto simp: renamed_def moved_def relinked_def Let_def)
qed

lemma not_prefix_butlast: "xs \<noteq> [] \<Longrightarrow> \<not> prefix xs (butlast xs)"
proof
  assume "xs \<noteq> []" "prefix xs (butlast xs)"
  then have "length xs \<le> length (butlast xs)" by (intro prefix_length_le)
  moreover have "length (butlast xs) < length xs" using \<open>xs \<noteq> []\<close> by (simp add: length_butlast)
  ultimately show False by linarith
qed

lemma desc_finite:
  assumes "vfs_inv s" "list_all valid_name os"
  shows "finite (desc s os [])"
proof -
  let ?f = "\<lambda>us. path_of (os @ us)"
  have "inj_on ?f (desc s os [])"
    using assms(2) by (auto simp: inj_on_def desc_Nil path_of_inj_iff)
  moreover have "?f ` desc s os [] \<subseteq> dom (files s)" by (auto simp: desc_Nil)
  then have "finite (?f ` desc s os [])" using inv_D(2) [OF assms(1)] by (rule finite_subset)
  ultimately show ?thesis by (rule finite_imageD [rotated])
qed

lemma renamed_key:
  assumes m: "move_ok s os ns src op np" and a: "files (renamed s os ns src op np) x = Some a"
  shows "\<exists>xs. list_all valid_name xs \<and> x = path_of xs"
proof -
  note mk = move_okD [OF m]
  show ?thesis
  proof (cases "x \<in> (\<lambda>us. path_of (ns @ us)) ` desc s os []")
    case True
    then obtain us where "us \<in> desc s os []" "x = path_of (ns @ us)" by auto
    then have "list_all valid_name (ns @ us)" using mk(3) by (simp add: desc_Nil)
    with \<open>x = path_of (ns @ us)\<close> show ?thesis by blast
  next
    case False
    with a have "files (relinked s os ns src op np) x = Some a"
      by (auto simp: renamed_def moved_def split: if_splits)
    then have "x = path_of ns \<or> files s x = Some a"
      by (auto simp: relinked_def Let_def split: if_splits)
    then show ?thesis using mk(3) inv_nodesD(3) [OF mk(1)] by blast
  qed
qed

lemma renamed_origin:
  assumes m: "move_ok s os ns src op np" and v: "list_all valid_name xs"
    and a: "files (renamed s os ns src op np) (path_of xs) = Some a"
  shows "(\<exists>us. xs = ns @ us \<and> files s (path_of (os @ us)) = Some a)
       \<or> (\<not> prefix ns xs \<and> \<not> prefix os xs \<and> files s (path_of xs) = Some a)"
proof (cases "prefix ns xs")
  case True
  then obtain us where us: "xs = ns @ us" by (auto simp: prefix_def)
  from a True have "files s (path_of (os @ drop (length ns) xs)) = Some a"
    by (simp add: renamed_files [OF m v])
  with us show ?thesis by simp
next
  case False
  with a show ?thesis by (auto simp: renamed_files [OF m v] split: if_splits)
qed

lemma inv_renamed:
  assumes m: "move_ok s os ns src op np"
  shows "vfs_inv (renamed s os ns src op np)" (is "vfs_inv ?R")
proof -
  note mk = move_okD [OF m]
  note inv = mk(1)
  note rf = renamed_files [OF m]
  note fld = renamed_fields [OF m]
  from move_parents [OF m] obtain cso csn where sop: "src \<noteq> op" and snp: "src \<noteq> np"
    and cso: "children (heap s op) = Some cso" "map_of cso (last os) = Some src"
    and csn: "children (heap s np) = Some csn" and nsrc: "name (heap s src) = last os"
    by auto
  have os: "os = butlast os @ [last os]" and ns: "ns = butlast ns @ [last ns]" using mk by auto
  have vbo: "list_all valid_name (butlast os)" and vlo: "valid_name (last os)"
    using mk(2,4) by (auto simp: list_all_iff dest: in_set_butlastD)
  have vbn: "list_all valid_name (butlast ns)" and vln: "valid_name (last ns)"
    using mk(3,5) by (auto simp: list_all_iff dest: in_set_butlastD)
  have npo: "\<not> prefix os (butlast ns)"
  proof
    assume "prefix os (butlast ns)"
    then have "prefix os ns" using ns by (metis prefix_prefix)
    with mk(8) show False by simp
  qed
  have npn: "\<not> prefix ns (butlast ns)" using mk(5) by (rule not_prefix_butlast)
  have opo: "\<not> prefix os (butlast os)" using mk(4) by (rule not_prefix_butlast)
  have opn: "\<not> prefix ns (butlast os)"
  proof
    assume "prefix ns (butlast os)"
    then have "prefix ns os" using os by (metis prefix_prefix)
    with move_not_prefix_rev [OF m] show False by simp
  qed
  have inj: "\<And>x y a. files s x = Some a \<Longrightarrow> files s y = Some a \<Longrightarrow> x = y"
    using files_inj [OF inv_D(3) [OF inv]] by blast
  have 1: "inv_root ?R"
  proof -
    have "files ?R (path_of []) = files s (path_of [])" using mk(4,5) by (subst rf) auto
    moreover have "root s \<noteq> src"
    proof
      assume "root s = src"
      with inv_root_exists [OF inv] mk(6) inj have "path_of [] = path_of os" by blast
      with mk(2,4) show False by (simp add: path_of_inj_iff)
    qed
    ultimately show ?thesis
      using inv_D(1) [OF inv] by (auto simp: inv_root_def fld path_of_def)
  qed
  have 2: "finite (dom (files ?R))"
  proof -
    have "dom (files ?R) \<subseteq> (\<lambda>us. path_of (ns @ us)) ` desc s os [] \<union> insert (path_of ns) (dom (files s))"
      by (auto simp: renamed_def moved_def relinked_def Let_def split: if_splits)
    moreover have "finite ((\<lambda>us. path_of (ns @ us)) ` desc s os [] \<union> insert (path_of ns) (dom (files s)))"
      using desc_finite [OF inv mk(2)] inv_D(2) [OF inv] by simp
    ultimately show ?thesis by (rule finite_subset)
  qed
  have 3: "inv_nodes ?R"
    unfolding inv_nodes_def
  proof (intro allI impI)
    fix x a assume xa: "files ?R x = Some a"
    from renamed_key [OF m xa] obtain xs where xs: "list_all valid_name xs" "x = path_of xs" by auto
    from renamed_origin [OF m xs(1)] xa xs(2)
    consider us where "xs = ns @ us" "files s (path_of (os @ us)) = Some a"
      | "\<not> prefix ns xs" "\<not> prefix os xs" "files s (path_of xs) = Some a"
      by auto
    then have "path (heap ?R a) = x \<and> (\<exists>y. files s y = Some a)"
    proof cases
      case 1
      then have "list_all valid_name us" using xs(1) by simp
      from renamed_path_moved [OF m this 1(2)] 1 xs(2) show ?thesis by auto
    next
      case 2
      from renamed_path_other [OF m xs(1) 2(3) 2(2)] 2(3) xs(2) show ?thesis by auto
    qed
    then obtain y where p: "path (heap ?R a) = x" and y: "files s y = Some a" by auto
    have c: "type (heap ?R a) = Directory \<longleftrightarrow> children (heap ?R a) \<noteq> None"
      using inv_nodesD(4) [OF inv y] inv_nodesD(4) [OF inv mk(9)] inv_nodesD(4) [OF inv mk(10)] cso csn
      by (auto simp: fld)
    have d: "\<forall>cs. children (heap ?R a) = Some cs \<longrightarrow> distinct (map fst cs)"
      using inv_nodesD(5) [OF inv y] inv_nodesD(5) [OF inv mk(9) cso(1)]
        inv_nodesD(5) [OF inv mk(10) csn] cso csn
      by (auto simp: fld distinct_update distinct_delete)
    show "a < fresh ?R \<and> path (heap ?R a) = x \<and> (\<exists>ss. list_all valid_name ss \<and> x = path_of ss)
      \<and> (type (heap ?R a) = Directory \<longleftrightarrow> children (heap ?R a) \<noteq> None)
      \<and> (\<forall>cs. children (heap ?R a) = Some cs \<longrightarrow> distinct (map fst cs))"
      using inv_lt [OF inv y] p xs c d by (auto simp: fld)
  qed
  have src_only: "a = src \<longleftrightarrow> xs = os" if "list_all valid_name xs" "files s (path_of xs) = Some a" for xs a
  proof
    assume "a = src"
    with that mk(6) inj have "path_of xs = path_of os" by blast
    with that(1) mk(2) show "xs = os" by (simp add: path_of_inj_iff)
  next
    assume "xs = os"
    with that mk(6) show "a = src" by simp
  qed
  have np_only: "a = np \<longleftrightarrow> xs = butlast ns" if "list_all valid_name xs" "files s (path_of xs) = Some a" for xs a
  proof
    assume "a = np"
    with that mk(10) inj have "path_of xs = path_of (butlast ns)" by blast
    with that(1) vbn show "xs = butlast ns" by (simp add: path_of_inj_iff)
  next
    assume "xs = butlast ns"
    with that mk(10) show "a = np" by simp
  qed
  have op_only: "a = op \<longleftrightarrow> xs = butlast os" if "list_all valid_name xs" "files s (path_of xs) = Some a" for xs a
  proof
    assume "a = op"
    with that mk(9) inj have "path_of xs = path_of (butlast os)" by blast
    with that(1) vbo show "xs = butlast os" by (simp add: path_of_inj_iff)
  next
    assume "xs = butlast os"
    with that mk(9) show "a = op" by simp
  qed
  have 4: "inv_up ?R"
    unfolding inv_up_def
  proof (intro allI impI)
    fix xs k a
    assume v: "list_all valid_name (xs @ [k])" and xa: "files ?R (path_of (xs @ [k])) = Some a"
    have vxs: "list_all valid_name xs" using v by simp
    from renamed_origin [OF m v xa]
    consider us where "xs @ [k] = ns @ us" "files s (path_of (os @ us)) = Some a"
      | "\<not> prefix ns (xs @ [k])" "\<not> prefix os (xs @ [k])" "files s (path_of (xs @ [k])) = Some a"
      by auto
    then show "name (heap ?R a) = k \<and> (\<exists>pa cs. files ?R (path_of xs) = Some pa
            \<and> children (heap ?R pa) = Some cs \<and> map_of cs k = Some a)"
    proof cases
      case 1
      show ?thesis
      proof (cases us rule: rev_cases)
        case Nil
        with 1 ns have x: "xs = butlast ns" "k = last ns" and a: "a = src"
          using mk(6) by (auto simp: mk(5) butlast_append dest: arg_cong [where f = butlast] arg_cong [where f = last])
        have "files ?R (path_of (butlast ns)) = Some np"
          using npn npo mk(10) by (simp add: rf [OF vbn])
        moreover have "\<exists>cs. children (heap ?R np) = Some cs \<and> map_of cs (last ns) = Some src"
          by (simp add: fld update_conv')
        ultimately show ?thesis using x a fld(3) [of a] by simp
      next
        case (snoc us' k')
        with 1 have x: "xs = ns @ us'" "k = k'" by auto
        have vo: "list_all valid_name ((os @ us') @ [k])" using v mk(2) x by simp
        have ao: "files s (path_of ((os @ us') @ [k])) = Some a" using 1(2) snoc x by simp
        from inv_upD [OF inv vo ao] obtain pa' cs' where nm: "name (heap s a) = k"
          and pa': "files s (path_of (os @ us')) = Some pa'" "children (heap s pa') = Some cs'"
            "map_of cs' k = Some a" by auto
        have vou: "list_all valid_name (os @ us')" using vo by simp
        have "a \<noteq> src" using src_only [OF _ ao] vo by simp
        moreover have "pa' \<noteq> np" using np_only [OF vou pa'(1)] npo by (metis prefixI)
        moreover have "pa' \<noteq> op" using op_only [OF vou pa'(1)] opo by (metis prefixI)
        moreover have "files ?R (path_of xs) = Some pa'" using pa'(1) x rf [OF vxs] by simp
        ultimately show ?thesis using nm pa' fld(3) [of a] fld(4) [of pa'] by auto
      qed
    next
      case 2
      from inv_upD [OF inv v 2(3)] obtain pa' cs' where nm: "name (heap s a) = k"
        and pa': "files s (path_of xs) = Some pa'" "children (heap s pa') = Some cs'"
          "map_of cs' k = Some a" by auto
      have "a \<noteq> src" using src_only [OF v 2(3)] 2(2) by auto
      have pn: "\<not> prefix ns xs" and po: "\<not> prefix os xs" using 2 by (auto dest: prefix_prefix)
      then have fr: "files ?R (path_of xs) = Some pa'" using pa'(1) by (simp add: rf [OF vxs])
      have kn: "k \<noteq> last ns" if "xs = butlast ns"
      proof
        assume "k = last ns"
        with that ns have "xs @ [k] = ns" by simp
        with 2(1) show False by simp
      qed
      have ko: "k \<noteq> last os" if "xs = butlast os"
      proof
        assume "k = last os"
        with that os have "xs @ [k] = os" by simp
        with 2(2) show False by simp
      qed
      have "\<exists>cs. children (heap ?R pa') = Some cs \<and> map_of cs k = Some a"
      proof (cases "pa' = np")
        case True
        then have xn: "xs = butlast ns" using np_only [OF vxs pa'(1)] by simp
        show ?thesis
        proof (cases "np = op")
          case eq: True
          then have "xs = butlast os" using op_only [OF vxs pa'(1)] True by simp
          with True eq kn [OF xn] ko pa' cso fld(4) [of pa'] show ?thesis
            by (simp add: update_conv' delete_conv')
        next
          case False
          with True kn [OF xn] pa' csn fld(4) [of pa'] show ?thesis by (simp add: update_conv')
        qed
      next
        case nnp: False
        show ?thesis
        proof (cases "pa' = op")
          case True
          then have "xs = butlast os" using op_only [OF vxs pa'(1)] by simp
          with True nnp ko pa' cso fld(4) [of pa'] show ?thesis by (simp add: delete_conv')
        next
          case False
          with nnp pa' fld(4) [of pa'] show ?thesis by simp
        qed
      qed
      with fr nm \<open>a \<noteq> src\<close> fld(3) [of a] show ?thesis by auto
    qed
  qed
  have 5: "inv_down ?R"
    unfolding inv_down_def
  proof (intro allI impI)
    fix xs a cs k c
    assume v: "list_all valid_name xs" and xa: "files ?R (path_of xs) = Some a"
      and ch: "children (heap ?R a) = Some cs" and mp: "map_of cs k = Some c"
    from renamed_origin [OF m v xa]
    consider us where "xs = ns @ us" "files s (path_of (os @ us)) = Some a"
      | "\<not> prefix ns xs" "\<not> prefix os xs" "files s (path_of xs) = Some a"
      by auto
    then show "valid_name k \<and> files ?R (path_of (xs @ [k])) = Some c"
    proof cases
      case 1
      have vou: "list_all valid_name (os @ us)" using v mk(2) 1(1) by simp
      have "a \<noteq> np" using np_only [OF vou 1(2)] npo by (metis prefixI)
      moreover have "a \<noteq> op" using op_only [OF vou 1(2)] opo by (metis prefixI)
      ultimately have "children (heap s a) = Some cs" using ch fld(4) [of a] by simp
      from inv_downD [OF inv vou 1(2) this mp] have vk: "valid_name k"
        and c: "files s (path_of ((os @ us) @ [k])) = Some c" by auto
      have "list_all valid_name (xs @ [k])" using v vk by simp
      from rf [OF this] c 1(1) vk show ?thesis by simp
    next
      case 2
      show ?thesis
      proof (cases "a = np")
        case True
        then have xn: "xs = butlast ns" using np_only [OF v 2(3)] by simp
        show ?thesis
        proof (cases "k = last ns")
          case kl: True
          with True ch mp fld(4) [of a] have "c = src" by (auto simp: update_conv')
          moreover have "files ?R (path_of ns) = Some src"
            using mk(6) by (simp add: rf [OF mk(3)])
          ultimately show ?thesis using kl xn vln ns by simp
        next
          case kl: False
          show ?thesis
          proof (cases "np = op")
            case eq: True
            then have xo: "xs = butlast os" using op_only [OF v 2(3)] True by simp
            from True eq ch mp kl cso fld(4) [of a] have k2: "k \<noteq> last os" and m2: "map_of cso k = Some c"
              by (auto simp: update_conv' delete_conv' split: if_splits)
            from inv_downD [OF inv vbo mk(9) cso(1) m2] have vk: "valid_name k"
              and c: "files s (path_of (butlast os @ [k])) = Some c" by auto
            have vx: "list_all valid_name (xs @ [k])" using v vk by simp
            have "\<not> prefix ns (xs @ [k])" using 2(1) kl xn ns
              by (metis append1_eq_conv prefix_snoc)
            moreover have "\<not> prefix os (xs @ [k])" using 2(2) k2 xo os
              by (metis append1_eq_conv prefix_snoc)
            ultimately show ?thesis using rf [OF vx] c xo vk by simp
          next
            case neq: False
            from True neq ch mp kl csn fld(4) [of a] have m2: "map_of csn k = Some c"
              by (auto simp: update_conv' split: if_splits)
            from inv_downD [OF inv vbn mk(10) csn m2] have vk: "valid_name k"
              and c: "files s (path_of (butlast ns @ [k])) = Some c" by auto
            have vx: "list_all valid_name (xs @ [k])" using v vk by simp
            have "\<not> prefix ns (xs @ [k])" using 2(1) kl xn ns
              by (metis append1_eq_conv prefix_snoc)
            moreover have "\<not> prefix os (xs @ [k])"
            proof
              assume "prefix os (xs @ [k])"
              with 2(2) have "os = xs @ [k]" by simp
              then have "butlast os = butlast ns" using xn by simp
              with mk(9,10) neq show False by simp
            qed
            ultimately show ?thesis using rf [OF vx] c xn vk by simp
          qed
        qed
      next
        case nnp: False
        show ?thesis
        proof (cases "a = op")
          case True
          then have xo: "xs = butlast os" using op_only [OF v 2(3)] by simp
          from True nnp ch mp cso fld(4) [of a] have k2: "k \<noteq> last os" and m2: "map_of cso k = Some c"
            by (auto simp: delete_conv' split: if_splits)
          from inv_downD [OF inv vbo mk(9) cso(1) m2] have vk: "valid_name k"
            and c: "files s (path_of (butlast os @ [k])) = Some c" by auto
          have vx: "list_all valid_name (xs @ [k])" using v vk by simp
          have "\<not> prefix os (xs @ [k])" using 2(2) k2 xo os
            by (metis append1_eq_conv prefix_snoc)
          moreover have "\<not> prefix ns (xs @ [k])"
          proof
            assume "prefix ns (xs @ [k])"
            with 2(1) have "ns = xs @ [k]" by simp
            with c xo mk(7) show False by simp
          qed
          ultimately show ?thesis using rf [OF vx] c xo vk by simp
        next
          case False
          with nnp ch fld(4) [of a] have "children (heap s a) = Some cs" by simp
          from inv_downD [OF inv v 2(3) this mp] have vk: "valid_name k"
            and c: "files s (path_of (xs @ [k])) = Some c" by auto
          have vx: "list_all valid_name (xs @ [k])" using v vk by simp
          have "\<not> prefix os (xs @ [k])"
          proof
            assume "prefix os (xs @ [k])"
            with 2(2) have "os = xs @ [k]" by simp
            then have "xs = butlast os" by simp
            with op_only [OF v 2(3)] False show False by simp
          qed
          moreover have "\<not> prefix ns (xs @ [k])"
          proof
            assume "prefix ns (xs @ [k])"
            with 2(1) have "ns = xs @ [k]" by simp
            with c mk(7) show False by simp
          qed
          ultimately show ?thesis using rf [OF vx] c vk by simp
        qed
      qed
    qed
  qed
  from 1 2 3 4 5 show ?thesis by (simp add: vfs_inv_def)
qed

lemma moved_fields:
  assumes m: "move_ok s os ns src op np"
  shows "type (heap (moved U s os ns (relinked s os ns src op np)) a) = type (heap s a)"
    and "content (heap (moved U s os ns (relinked s os ns src op np)) a) = content (heap s a)"
    and "name (heap (moved U s os ns (relinked s os ns src op np)) a)
           = (if a = src then last ns else name (heap s a))"
    and "children (heap (moved U s os ns (relinked s os ns src op np)) a) =
          (if a = np then Some (AList.update (last ns) src
                (if np = op then AList.delete (last os) (the (children (heap s op)))
                 else the (children (heap s np))))
           else if a = op then Some (AList.delete (last os) (the (children (heap s op))))
           else children (heap s a))"
  using move_parents(1,2) [OF m]
  by (auto simp: moved_def relinked_def Let_def)

lemma moved_empty: "moved {} s os ns sf = sf"
  by (simp add: moved_def)

lemma desc_valid: "w \<in> desc s os us \<Longrightarrow> list_all valid_name us \<Longrightarrow> list_all valid_name w \<and> w \<noteq> []"
  by (auto simp: desc_def)

lemma moved_path:
  assumes m: "move_ok s os ns src op np" and U: "U \<subseteq> desc s os []"
    and v: "list_all valid_name us" and a: "files s (path_of (os @ us)) = Some a"
  shows "path (heap (moved U s os ns (relinked s os ns src op np)) a)
         = (if us \<in> U then path_of (ns @ us) else if us = [] then path_of ns else path_of (os @ us))"
proof -
  note mk = move_okD [OF m]
  have inj: "\<And>x y a. files s x = Some a \<Longrightarrow> files s y = Some a \<Longrightarrow> x = y"
    using files_inj [OF inv_D(3) [OF mk(1)]] by blast
  have pa: "path (heap s a) = path_of (os @ us)" using inv_nodesD(2) [OF mk(1) a] .
  have ex: "(\<exists>us'\<in>U. files s (path_of (os @ us')) = Some a) \<longleftrightarrow> us \<in> U"
  proof
    assume "\<exists>us'\<in>U. files s (path_of (os @ us')) = Some a"
    then obtain us' where u: "us' \<in> U" "files s (path_of (os @ us')) = Some a" by auto
    with U have "list_all valid_name us'" by (auto simp: desc_Nil)
    with inj [OF u(2) a] v mk(2) have "us' = us" by (simp add: path_of_inj_iff)
    with u show "us \<in> U" by simp
  qed (use a in auto)
  have src: "a = src \<longleftrightarrow> us = []"
  proof
    assume "a = src"
    with inj [OF a] mk(6) have "path_of (os @ us) = path_of os" by simp
    with v mk(2) show "us = []" by (simp add: path_of_inj_iff)
  qed (use a mk(6) in auto)
  have psf: "path (heap (relinked s os ns src op np) a) = (if a = src then path_of ns else path (heap s a))"
    using move_parents(1,2) [OF m] by (auto simp: relinked_def Let_def)
  have ne: "us \<noteq> []" if "us \<in> U" using that U by (auto simp: desc_Nil)
  have 1: "path (heap (moved U s os ns (relinked s os ns src op np)) a)
      = (if us \<in> U then path_of ns @ drop (length (path_of os)) (path (heap (relinked s os ns src op np) a))
         else path (heap (relinked s os ns src op np) a))"
    by (simp add: moved_def ex)
  show ?thesis
  proof (cases "us \<in> U")
    case True
    with ne src have "a \<noteq> src" by simp
    with True pa mk(4,5) show ?thesis by (simp add: 1 psf path_of_append)
  next
    case False
    with src pa show ?thesis by (simp add: 1 psf)
  qed
qed

lemma below_old_new_disjoint:
  assumes m: "move_ok s os ns src op np" and "list_all valid_name us" "list_all valid_name vs"
  shows "path_of (os @ us) \<noteq> path_of (ns @ vs)"
proof
  note mk = move_okD [OF m]
  assume "path_of (os @ us) = path_of (ns @ vs)"
  with assms(2,3) mk(2,3) have "os @ us = ns @ vs" by (simp add: path_of_inj_iff)
  then have "prefix os ns \<or> prefix ns os" by (metis append_eq_append_conv2 prefixI)
  with mk(8) move_not_prefix_rev [OF m] show False by simp
qed

lemma moved_insert:
  assumes m: "move_ok s os ns src op np" and U: "U \<subseteq> desc s os []"
    and w: "w \<in> desc s os []" "w \<notin> U" and c: "files s (path_of (os @ w)) = Some c"
  shows "(moved U s os ns (relinked s os ns src op np))
           \<lparr>heap := (heap (moved U s os ns (relinked s os ns src op np)))
               (c := (heap (moved U s os ns (relinked s os ns src op np)) c)\<lparr>path := path_of (ns @ w)\<rparr>),
            files := ((files (moved U s os ns (relinked s os ns src op np)))(path_of (os @ w) := None))
               (path_of (ns @ w) \<mapsto> c)\<rparr>
         = moved (insert w U) s os ns (relinked s os ns src op np)"
    (is "?L = ?R")
proof -
  note mk = move_okD [OF m]
  let ?sf = "relinked s os ns src op np"
  have inj: "\<And>x y a. files s x = Some a \<Longrightarrow> files s y = Some a \<Longrightarrow> x = y"
    using files_inj [OF inv_D(3) [OF mk(1)]] by blast
  have vw: "list_all valid_name w" "w \<noteq> []" using w(1) by (auto simp: desc_Nil)
  have vU: "\<And>u. u \<in> U \<Longrightarrow> list_all valid_name u \<and> u \<noteq> []" using U by (auto simp: desc_Nil)
  have csrc: "c \<noteq> src"
  proof
    assume "c = src"
    with inj [OF c] mk(6) have "path_of (os @ w) = path_of os" by simp
    with vw mk(2) show False by (simp add: path_of_inj_iff)
  qed
  have pc: "path (heap ?sf c) = path_of (os @ w)"
    using inv_nodesD(2) [OF mk(1) c] csrc move_parents(1,2) [OF m]
    by (auto simp: relinked_def Let_def)
  have exc: "(\<exists>us\<in>U. files s (path_of (os @ us)) = Some c) = False"
  proof -
    have False if "u \<in> U" "files s (path_of (os @ u)) = Some c" for u
    proof -
      from inj [OF that(2) c] vU [OF that(1)] vw mk(2) have "u = w" by (simp add: path_of_inj_iff)
      with that(1) w(2) show False by simp
    qed
    then show ?thesis by blast
  qed
  have h: "heap ?L = heap ?R"
  proof
    fix a
    show "heap ?L a = heap ?R a"
    proof (cases "a = c")
      case True
      then show ?thesis
        using c mk(4,5) by (simp add: moved_def exc pc path_of_append)
    next
      case False
      have "(\<exists>us\<in>insert w U. files s (path_of (os @ us)) = Some a)
            = (\<exists>us\<in>U. files s (path_of (os @ us)) = Some a)"
        using False c by auto
      with False show ?thesis by (simp add: moved_def)
    qed
  qed
  have f: "files ?L = files ?R"
  proof
    fix x
    consider "x = path_of (ns @ w)" | "x = path_of (os @ w)" | "x \<noteq> path_of (ns @ w)" "x \<noteq> path_of (os @ w)"
      by blast
    then show "files ?L x = files ?R x"
    proof cases
      case 1
      then show ?thesis using c mk(4,5) by (simp add: moved_def path_rewrite)
    next
      case 2
      have ne: "path_of (os @ w) \<noteq> path_of (ns @ w)"
        by (rule below_old_new_disjoint [OF m vw(1) vw(1)])
      have "path_of (os @ w) \<notin> (\<lambda>us. path_of (ns @ us)) ` insert w U"
        using below_old_new_disjoint [OF m vw(1)] vU vw by blast
      with 2 ne show ?thesis by (simp add: moved_def)
    next
      case 3
      then show ?thesis by (auto simp: moved_def)
    qed
  qed
  show ?thesis
    by (rule VirtualFileSystem.equality) (simp_all add: h f, simp_all add: moved_def)
qed

lemma desc_children:
  assumes inv: "vfs_inv s" and v: "list_all valid_name (os @ us)"
    and node: "files s (path_of (os @ us)) = Some node" and cs: "children (heap s node) = Some cs"
  shows "desc s os us = (\<Union>(j, c)\<in>set cs. insert (us @ [j]) (desc s os (us @ [j])))"
proof (intro set_eqI iffI)
  fix w assume "w \<in> desc s os us"
  then obtain vs where w: "w = us @ vs" "vs \<noteq> []" "list_all valid_name vs"
    "files s (path_of (os @ us @ vs)) \<noteq> None" by (auto simp: desc_def)
  then obtain j vs' where vs: "vs = j # vs'" by (cases vs) auto
  have v1: "list_all valid_name (((os @ us) @ [j]) @ vs')" using v w vs by simp
  have "files s (path_of (((os @ us) @ [j]) @ vs')) \<noteq> None" using w vs by simp
  from inv_prefix_closed [OF inv v1 this] obtain c where c: "files s (path_of ((os @ us) @ [j])) = Some c"
    by auto
  have v2: "list_all valid_name ((os @ us) @ [j])" using v1 by simp
  from inv_upD(2) [OF inv v2 c] node cs have "map_of cs j = Some c" by auto
  then have jc: "(j, c) \<in> set cs" by (rule map_of_SomeD)
  have "w \<in> insert (us @ [j]) (desc s os (us @ [j]))"
  proof (cases "vs' = []")
    case True
    with w vs show ?thesis by simp
  next
    case False
    with w vs show ?thesis by (auto simp: desc_def)
  qed
  with jc show "w \<in> (\<Union>(j, c)\<in>set cs. insert (us @ [j]) (desc s os (us @ [j])))" by blast
next
  fix w assume "w \<in> (\<Union>(j, c)\<in>set cs. insert (us @ [j]) (desc s os (us @ [j])))"
  then obtain j c where jc: "(j, c) \<in> set cs" and w: "w = us @ [j] \<or> w \<in> desc s os (us @ [j])"
    by auto
  have "distinct (map fst cs)" using inv_nodesD(5) [OF inv node cs] .
  then have "map_of cs j = Some c" using jc by (rule map_of_is_SomeI)
  from inv_downD [OF inv v node cs this] have vj: "valid_name j"
    and c: "files s (path_of ((os @ us) @ [j])) = Some c" by auto
  from w show "w \<in> desc s os us"
  proof
    assume "w = us @ [j]"
    with vj c show ?thesis by (auto simp: desc_def)
  next
    assume "w \<in> desc s os (us @ [j])"
    then obtain vs where "w = (us @ [j]) @ vs" "vs \<noteq> []" "list_all valid_name vs"
      "files s (path_of (os @ (us @ [j]) @ vs)) \<noteq> None" by (auto simp: desc_def)
    then have "w = us @ (j # vs)" "j # vs \<noteq> []" "list_all valid_name (j # vs)"
      "files s (path_of (os @ us @ (j # vs))) \<noteq> None" using vj by auto
    then show ?thesis unfolding desc_def by blast
  qed
qed

lemma desc_leaf:
  assumes inv: "vfs_inv s" and v: "list_all valid_name (os @ us)"
    and node: "files s (path_of (os @ us)) = Some node" and cs: "children (heap s node) = None"
  shows "desc s os us = {}"
proof (rule ccontr)
  assume "desc s os us \<noteq> {}"
  then obtain vs where w: "vs \<noteq> []" "list_all valid_name vs"
    "files s (path_of (os @ us @ vs)) \<noteq> None" by (auto simp: desc_def)
  then obtain j vs' where vs: "vs = j # vs'" by (cases vs) auto
  have v1: "list_all valid_name (((os @ us) @ [j]) @ vs')" using v w vs by simp
  have "files s (path_of (((os @ us) @ [j]) @ vs')) \<noteq> None" using w vs by simp
  from inv_prefix_closed [OF inv v1 this] obtain c where c: "files s (path_of ((os @ us) @ [j])) = Some c"
    by auto
  have v2: "list_all valid_name ((os @ us) @ [j])" using v1 by simp
  from inv_upD(2) [OF inv v2 c] node cs show False by auto
qed

lemma desc_mono: "valid_name j \<Longrightarrow> desc s os (us @ [j]) \<subseteq> desc s os us"
proof
  fix w assume vj: "valid_name j" and "w \<in> desc s os (us @ [j])"
  then obtain vs where "w = (us @ [j]) @ vs" "vs \<noteq> []" "list_all valid_name vs"
    "files s (path_of (os @ (us @ [j]) @ vs)) \<noteq> None" by (auto simp: desc_def)
  then have "w = us @ (j # vs)" "j # vs \<noteq> []" "list_all valid_name (j # vs)"
    "files s (path_of (os @ us @ (j # vs))) \<noteq> None" using vj by auto
  then show "w \<in> desc s os us" unfolding desc_def by blast
qed

lemma desc_sub_Nil: "list_all valid_name us \<Longrightarrow> desc s os us \<subseteq> desc s os [] \<union> {}"
  by (auto simp: desc_def)

lemma ucp_moved:
  assumes m: "move_ok s os ns src op np"
  shows "list_all valid_name us \<Longrightarrow> files s (path_of (os @ us)) = Some node \<Longrightarrow>
     (us \<noteq> [] \<longrightarrow> us \<in> U) \<Longrightarrow> U \<subseteq> desc s os [] \<Longrightarrow> U \<inter> desc s os us = {} \<Longrightarrow> 0 < n \<Longrightarrow>
     (\<forall>x\<in>dom (files s). length x < length (path_of (os @ us)) + n) \<Longrightarrow>
     updateChildrenPaths n node (moved U s os ns (relinked s os ns src op np))
       = Inr (moved (U \<union> desc s os us) s os ns (relinked s os ns src op np))"
proof (induction n arbitrary: us node U)
  case 0
  then show ?case by simp
next
  case (Suc n)
  note mk = move_okD [OF m]
  note inv = mk(1)
  let ?sf = "relinked s os ns src op np"
  let ?M = "\<lambda>U. moved U s os ns ?sf"
  note vus = Suc.prems(1) and node = Suc.prems(2) and usU = Suc.prems(3) and U = Suc.prems(4)
    and disj = Suc.prems(5) and fuel = Suc.prems(7)
  have vou: "list_all valid_name (os @ us)" using vus mk(2) by simp
  have inj: "\<And>x y a. files s x = Some a \<Longrightarrow> files s y = Some a \<Longrightarrow> x = y"
    using files_inj [OF inv_D(3) [OF inv]] by blast
  have vbo: "list_all valid_name (butlast os)" and vbn: "list_all valid_name (butlast ns)"
    using mk(2,3) by (auto simp: list_all_iff dest: in_set_butlastD)
  have not_parent: "a \<noteq> op \<and> a \<noteq> np" if "list_all valid_name vs" "files s (path_of (os @ vs)) = Some a" for a vs
  proof -
    have "path_of (os @ vs) \<noteq> path_of (butlast os)"
    proof
      assume "path_of (os @ vs) = path_of (butlast os)"
      with that(1) mk(2) vbo have "os @ vs = butlast os" by (simp add: path_of_inj_iff)
      then have "prefix os (butlast os)" by (metis prefixI)
      with not_prefix_butlast [OF mk(4)] show False by simp
    qed
    moreover have "path_of (os @ vs) \<noteq> path_of (butlast ns)"
    proof
      assume "path_of (os @ vs) = path_of (butlast ns)"
      with that(1) mk(2) vbn have "os @ vs = butlast ns" by (simp add: path_of_inj_iff)
      then have "prefix os (butlast ns)" by (metis prefixI)
      then have "prefix os ns" using mk(5) by (metis append_butlast_last_id prefix_prefix)
      with mk(8) show False by simp
    qed
    ultimately show ?thesis using that(2) mk(9,10) inj by blast
  qed
  note np_node = not_parent [OF vus node]
  have ty: "type (heap (?M V) node) = type (heap s node)" for V by (simp add: moved_fields [OF m])
  have ch: "children (heap (?M V) node) = children (heap s node)" for V
    using np_node by (simp add: moved_fields [OF m])
  show ?case
  proof (cases "type (heap s node) = Directory \<and> children (heap s node) \<noteq> None")
    case False
    then have none: "children (heap s node) = None" using inv_nodesD(4) [OF inv node] by auto
    from desc_leaf [OF inv vou node this] have "desc s os us = {}" .
    with none show ?thesis by (simp add: updateChildrenPaths.simps ty ch)
  next
    case True
    then obtain cs0 where cs0: "children (heap s node) = Some cs0" by auto
    have dist: "distinct (map fst cs0)" using inv_nodesD(5) [OF inv node cs0] .
    define body where "body = (\<lambda>(k :: string, child) s0.
            let oldChildPath = path (heap s0 child);
                s1 = s0\<lparr>heap := (heap s0)(child := (heap s0 child)
                          \<lparr>path := path (heap s0 node) @ ''/'' @ name (heap s0 child)\<rparr>)\<rparr>;
                s2 = s1\<lparr>files := (files s1)(oldChildPath := None)\<rparr>;
                s3 = s2\<lparr>files := (files s2)(path (heap s2 child) \<mapsto> child)\<rparr>
            in if type (heap s3 child) = Directory then updateChildrenPaths n child s3
               else Inr s3)"
    define W where "W pre = (\<Union>(j, c)\<in>set pre. insert (us @ [j]) (desc s os (us @ [j])))"
      for pre :: "(string \<times> addr) list"
    have Wcs0: "W cs0 = desc s os us" unfolding W_def by (rule desc_children [OF inv vou node cs0, symmetric])
    have step: "for_of body rem (?M (U \<union> W pre)) = Inr (?M (U \<union> W cs0))" if "cs0 = pre @ rem" for pre rem
      using that
    proof (induction rem arbitrary: pre)
      case Nil
      then show ?case by simp
    next
      case (Cons jc rem)
      obtain j c where jc: "jc = (j, c)" by (cases jc)
      note split = Cons.prems [unfolded jc]
      define w where "w = us @ [j]"
      define U' where "U' = U \<union> W pre"
      have "(j, c) \<in> set cs0" using split by simp
      then have m0: "map_of cs0 j = Some c" by (rule map_of_is_SomeI [OF dist])
      from inv_downD [OF inv vou node cs0 m0] have vj: "valid_name j"
        and fc: "files s (path_of (os @ w)) = Some c" by (auto simp: w_def)
      have vw: "list_all valid_name w" "w \<noteq> []" using vus vj by (auto simp: w_def)
      have w_desc: "w \<in> desc s os us" using vj fc by (auto simp: desc_def w_def)
      have du: "desc s os us \<subseteq> desc s os []" using desc_sub_Nil [OF vus] by auto
      have Wsub: "W pre \<subseteq> desc s os us"
        unfolding Wcs0 [symmetric] W_def using split by auto
      have U'sub: "U' \<subseteq> desc s os []" using U Wsub du by (auto simp: U'_def)
      have jpre: "j \<notin> fst ` set pre" using dist split by auto
      have wW: "v \<notin> W pre" if "prefix w v" for v
      proof
        assume "v \<in> W pre"
        then obtain i ci where i: "(i, ci) \<in> set pre" "v = us @ [i] \<or> v \<in> desc s os (us @ [i])"
          by (auto simp: W_def)
        then have "prefix (us @ [i]) v" by (auto simp: desc_def)
        with that have "prefix (us @ [i]) (us @ [j]) \<or> prefix (us @ [j]) (us @ [i])"
          unfolding w_def by (metis prefix_same_cases)
        then have "i = j" by auto
        with i(1) jpre show False by force
      qed
      have wU': "w \<notin> U'" using disj w_desc wW [of w] by (auto simp: U'_def)
      have csrc: "c \<noteq> src"
      proof
        assume "c = src"
        with inj [OF fc] mk(6) have "path_of (os @ w) = path_of os" by simp
        with vw mk(2) show False by (simp add: path_of_inj_iff)
      qed
      have e1: "path (heap (?M U') c) = path_of (os @ w)"
        using moved_path [OF m U'sub vw(1) fc] wU' vw(2) by simp
      have usU': "us \<in> U' \<or> us = []" using usU by (auto simp: U'_def)
      have "[] \<notin> U'" using U'sub by (auto simp: desc_Nil)
      then have e2: "path (heap (?M U') node) = path_of (ns @ us)"
        using moved_path [OF m U'sub vus node] usU' by auto
      have nmc: "name (heap s c) = j"
        using inv_upD(1) [OF inv _ fc [unfolded w_def, folded append_assoc]] vou vj by simp
      have e3: "name (heap (?M U') c) = j" using csrc nmc by (simp add: moved_fields [OF m])
      have e4: "path_of (ns @ us) @ ''/'' @ j = path_of (ns @ w)"
        using mk(5) path_of_snoc [of "ns @ us" j] by (simp add: w_def)
      have tyc: "type (heap (?M V) c) = type (heap s c)" for V by (simp add: moved_fields [OF m])
      let ?s3 = "(?M U')\<lparr>heap := (heap (?M U'))(c := (heap (?M U') c)\<lparr>path := path_of (ns @ w)\<rparr>),
            files := ((files (?M U'))(path_of (os @ w) := None))(path_of (ns @ w) \<mapsto> c)\<rparr>"
      have ins: "?s3 = ?M (insert w U')"
        using moved_insert [OF m U'sub _ wU' fc] w_desc du by blast
      have e4': "path_of (ns @ us) @ CHR ''/'' # j = path_of (ns @ w)" using e4 by simp
      have "body jc (?M U') = (if type (heap ?s3 c) = Directory
                  then updateChildrenPaths n c ?s3 else Inr ?s3)"
        unfolding body_def jc by (simp add: Let_def e1 e2 e3 e4')
      then have b0: "body jc (?M U') = (if type (heap s c) = Directory
                  then updateChildrenPaths n c (?M (insert w U')) else Inr (?M (insert w U')))"
        unfolding ins by (simp add: tyc)
      have Wsnoc: "W (pre @ [jc]) = W pre \<union> insert w (desc s os w)"
        by (auto simp: W_def jc w_def)
      have tgt: "U \<union> W (pre @ [jc]) = insert w U' \<union> desc s os w"
        by (auto simp: Wsnoc U'_def)
      have b1: "body jc (?M U') = Inr (?M (U \<union> W (pre @ [jc])))"
      proof (cases "type (heap s c) = Directory")
        case True
        have p3: "w \<noteq> [] \<longrightarrow> w \<in> insert w U'" by simp
        have p4: "insert w U' \<subseteq> desc s os []" using U'sub w_desc du by auto
        have p5: "insert w U' \<inter> desc s os w = {}"
        proof (rule ccontr)
          assume "insert w U' \<inter> desc s os w \<noteq> {}"
          then obtain v where v: "v \<in> insert w U'" "v \<in> desc s os w" by auto
          from v(2) obtain vs where vs: "v = w @ vs" "vs \<noteq> []" by (auto simp: desc_def)
          then have pw: "prefix w v" by simp
          have "v \<in> desc s os us" using v(2) desc_mono [OF vj, of s os us] by (auto simp: w_def)
          with disj have "v \<notin> U" by auto
          moreover have "v \<notin> W pre" using wW [OF pw] .
          moreover have "v \<noteq> w" using vs by simp
          ultimately show False using v(1) by (auto simp: U'_def)
        qed
        have len: "length (path_of (os @ us)) < length (path_of (os @ w))"
          using vj length_path_of_snoc [of j "os @ us"] by (simp add: w_def valid_name_def)
        have "path_of (os @ w) \<in> dom (files s)" using fc by auto
        with fuel have "length (path_of (os @ w)) < length (path_of (os @ us)) + Suc n" by blast
        with len have p6: "0 < n" by arith
        have p7: "\<forall>x\<in>dom (files s). length x < length (path_of (os @ w)) + n"
        proof
          fix x assume "x \<in> dom (files s)"
          with fuel have "length x < length (path_of (os @ us)) + Suc n" by blast
          with len show "length x < length (path_of (os @ w)) + n" by arith
        qed
        from Suc.IH [OF vw(1) fc p3 p4 p5 p6 p7] True show ?thesis
          by (simp add: b0 tgt)
      next
        case False
        then have "children (heap s c) = None" using inv_nodesD(4) [OF inv fc] by auto
        moreover have "list_all valid_name (os @ w)" using vw mk(2) by simp
        ultimately have "desc s os w = {}" using desc_leaf [OF inv _ fc] by blast
        with False show ?thesis by (simp add: b0 tgt)
      qed
      have "cs0 = (pre @ [jc]) @ rem" using Cons.prems by simp
      from Cons.IH [OF this] b1 show ?case by (simp add: U'_def)
    qed
    have "updateChildrenPaths (Suc n) node (?M U) = for_of body cs0 (?M U)"
      unfolding body_def using True cs0 by (simp add: updateChildrenPaths.simps ty ch)
    also have "\<dots> = Inr (?M (U \<union> W cs0))"
      using step [of "[]" cs0] by (simp add: W_def)
    finally show ?thesis by (simp add: Wcs0)
  qed
qed

text \<open>
  \<open>rename\<close> between clean paths, from an existing source to an absent destination: the
  missing directories above the destination are created first (state \<open>sa\<close>); then either the
  destination's parent is not a directory and \<open>false\<close> is returned in that state, or the
  subtree is moved. The depth budget exceeds the length of every stored path and of the new path.
\<close>

lemma length_slash_join_take: "length (slash_join (take i xs)) \<le> length (slash_join xs)"
proof (induction xs arbitrary: i)
  case Nil
  then show ?case by simp
next
  case (Cons x xs)
  show ?case
  proof (cases i)
    case 0
    then show ?thesis by simp
  next
    case (Suc k)
    with Cons [of k] show ?thesis by simp
  qed
qed

lemma length_path_of_take: "length (path_of (take i xs)) \<le> length (path_of xs) + 1"
  using length_slash_join_take [of i xs] by (auto simp: path_of_def)

lemma butlast_snoc_valid:
  assumes "list_all valid_name xs" "xs \<noteq> []"
  shows "list_all valid_name (butlast xs)" "valid_name (last xs)" "xs = butlast xs @ [last xs]"
  using assms by (auto simp: list_all_iff dest: in_set_butlastD)

lemma rename_run:
  assumes inv: "vfs_inv s" and vo: "list_all valid_name os" and vn: "list_all valid_name ns"
    and no: "normalizePath oldPath = path_of os" and nn: "normalizePath newPath = path_of ns"
    and one: "os \<noteq> []" and nne: "ns \<noteq> []"
    and src: "files s (path_of os) = Some src" and new: "files s (path_of ns) = None"
    and excl: "type (heap s src) = Directory \<longrightarrow> \<not> prefix os ns"
    and fuel: "\<forall>x\<in>dom (files s). length x < n" "length (path_of ns) < n"
  shows "\<exists>sa. vfs_inv sa \<and> grows s sa
      \<and> dom (files sa) \<subseteq> dom (files s) \<union> {path_of (take i (butlast ns)) | i. 0 < i \<and> i \<le> length (butlast ns)}
      \<and> ((\<forall>i a. i \<le> length (butlast ns) \<longrightarrow> files s (path_of (take i (butlast ns))) = Some a
              \<longrightarrow> type (heap s a) = Directory)
           \<longrightarrow> (\<exists>a. files sa (path_of (butlast ns)) = Some a \<and> type (heap sa a) = Directory))
      \<and> ((\<exists>op np. move_ok sa os ns src op np
              \<and> rename n oldPath newPath s = Inr (True, renamed sa os ns src op np))
         \<or> ((files sa (path_of (butlast ns)) = None
               \<or> (\<exists>np. files sa (path_of (butlast ns)) = Some np \<and> type (heap sa np) \<noteq> Directory))
             \<and> rename n oldPath newPath s = Inr (False, sa)))"
proof -
  note bo = butlast_snoc_valid [OF vo one] and bn = butlast_snoc_valid [OF vn nne]
  have vo': "list_all valid_name (butlast os @ [last os])" and vn': "list_all valid_name (butlast ns @ [last ns])"
    using vo vn bo(3) bn(3) by simp_all
  have ro: "path_of os \<noteq> ''/''" and rn: "path_of ns \<noteq> ''/''"
    using one nne vo vn by (simp_all add: path_of_eq_root)
  have gpo: "getParentPath (path_of os) = path_of (butlast os)"
    using getParentPath_path_of [OF vo'] bo(3) by simp
  have gpn: "getParentPath (path_of ns) = path_of (butlast ns)"
    using getParentPath_path_of [OF vn'] bn(3) by simp
  have gfn: "getFileName (path_of ns) = last ns"
    using getFileName_path_of [OF vn'] bn(3) by simp
  have src': "files s (path_of (butlast os @ [last os])) = Some src" using src bo(3) by simp
  from inv_upD [OF inv vo' src'] obtain op cso where op: "files s (path_of (butlast os)) = Some op"
    and cso: "children (heap s op) = Some cso" by auto
  have opdir: "type (heap s op) = Directory" using inv_nodesD(4) [OF inv op] cso by simp
  define cp where "cp = (if \<not> exists s (path_of (butlast ns))
                 then create_parents (filter_Boolean (js_split (path_of (butlast ns)) ''/'')) [] s
                 else Inr s)"
  let ?created = "{path_of (take i (butlast ns)) | i. 0 < i \<and> i \<le> length (butlast ns)}"
  let ?dirs = "\<forall>i a. i \<le> length (butlast ns) \<longrightarrow> files s (path_of (take i (butlast ns))) = Some a
              \<longrightarrow> type (heap s a) = Directory"
  have "\<exists>sa. cp = Inr sa \<and> vfs_inv sa \<and> grows s sa \<and> dom (files sa) \<subseteq> dom (files s) \<union> ?created
          \<and> (?dirs \<longrightarrow> (\<exists>a. files sa (path_of (butlast ns)) = Some a \<and> type (heap sa a) = Directory))"
  proof (cases "files s (path_of (butlast ns))")
    case None
    have rd: "\<exists>a. files s (path_of []) = Some a \<and> type (heap s a) = Directory"
      using inv_D(1) [OF inv] by (auto simp: inv_root_def path_of_def)
    have vb: "list_all valid_name ([] @ butlast ns)" using bn(1) by simp
    from create_parents_inv [OF inv vb] rd
    obtain sa where "create_parents (butlast ns) [] s = Inr sa" "vfs_inv sa" "grows s sa"
      "dom (files sa) \<subseteq> dom (files s) \<union> ?created"
      "?dirs \<longrightarrow> (\<exists>a. files sa (path_of (butlast ns)) = Some a \<and> type (heap sa a) = Directory)"
      by auto
    moreover have "cp = create_parents (butlast ns) [] s"
      using None by (simp add: cp_def exists_def normalizePath_path_of [OF bn(1)] segments_path_of [OF bn(1)])
    ultimately show ?thesis by auto
  next
    case (Some a)
    then have "cp = Inr s" by (simp add: cp_def exists_def normalizePath_path_of [OF bn(1)])
    moreover have "?dirs \<longrightarrow> type (heap s a) = Directory"
      using Some by (auto dest: spec [of _ "length (butlast ns)"])
    ultimately show ?thesis using inv Some by auto
  qed
  then obtain sa where cp: "cp = Inr sa" and inva: "vfs_inv sa" and gr: "grows s sa"
    and dm: "dom (files sa) \<subseteq> dom (files s) \<union> ?created"
    and ds: "?dirs \<longrightarrow> (\<exists>a. files sa (path_of (butlast ns)) = Some a \<and> type (heap sa a) = Directory)"
    by blast
  have r0: "rename n oldPath newPath s =
      (case files sa (path_of (butlast ns)) of
         None \<Rightarrow> Inr (False, sa)
       | Some newParent \<Rightarrow>
      if type (heap sa newParent) \<noteq> Directory then Inr (False, sa)
      else (case children_delete op (name (heap sa src)) sa of
              Inl e \<Rightarrow> Inl e
            | Inr sb \<Rightarrow>
      (let newName = last ns;
           sc = sb\<lparr>heap := (heap sb)(src := (heap sb src)
                     \<lparr>name := newName, path := path_of ns\<rparr>)\<rparr> in
       case children_set newParent newName src sc of
         Inl e \<Rightarrow> Inl e
       | Inr sd \<Rightarrow>
      (let se = sd\<lparr>files := (files sd)(path_of os := None)\<rparr>;
           sf = se\<lparr>files := (files se)(path_of ns \<mapsto> src)\<rparr> in
       if type (heap sf src) = Directory \<and> children (heap sf src) \<noteq> None
       then (case updateChildrenPaths n src sf of
               Inl e \<Rightarrow> Inl e
             | Inr sg \<Rightarrow> Inr (True, sg))
       else Inr (True, sf)))))"
    unfolding rename_def no nn Let_def gfn gpo gpn getParentNode_def
    using ro rn src new op opdir cp [unfolded cp_def]
    by (simp add: gpo gpn split del: if_split cong: if_cong)
  have srca: "files sa (path_of os) = Some src" and opa: "files sa (path_of (butlast os)) = Some op"
    using gr src op by (auto simp: grows_def map_le_def dom_def)
  have newa: "files sa (path_of ns) = None"
  proof (rule ccontr)
    assume "files sa (path_of ns) \<noteq> None"
    then have "path_of ns \<in> dom (files sa)" by auto
    with dm new obtain i where i: "path_of ns = path_of (take i (butlast ns))" by auto
    have "list_all valid_name (take i (butlast ns))"
      using bn(1) by (auto simp: list_all_iff dest: in_set_takeD)
    with i vn have "ns = take i (butlast ns)" by (simp add: path_of_inj_iff)
    then have "length ns = length (take i (butlast ns))" by simp
    also have "\<dots> \<le> length ns - 1" by simp
    finally have "length ns \<le> length ns - 1" .
    moreover have "0 < length ns" using nne by simp
    ultimately show False by arith
  qed
  have fa: "\<forall>x\<in>dom (files sa). length x < length (path_of (os @ [])) + n"
  proof
    fix x assume "x \<in> dom (files sa)"
    with dm have "x \<in> dom (files s) \<or> (\<exists>i. 0 < i \<and> i \<le> length (butlast ns) \<and> x = path_of (take i (butlast ns)))"
      by blast
    then consider "x \<in> dom (files s)"
      | i where "0 < i" "i \<le> length (butlast ns)" "x = path_of (take i (butlast ns))" by blast
    then have "length x < n"
    proof cases
      case 1
      with fuel(1) show ?thesis by simp
    next
      case 2
      then have "take i (butlast ns) = take i ns" by (simp add: take_butlast)
      moreover have "take i ns \<noteq> []" using 2 nne by auto
      ultimately have "x = slash_join (take i ns)" using 2 by (simp add: path_of_def)
      with length_slash_join_take [of i ns] fuel(2) nne show ?thesis by (simp add: path_of_def)
    qed
    then show "length x < length (path_of (os @ [])) + n" by simp
  qed
  have n0: "0 < n" using fuel(2) by simp
  show ?thesis
  proof (cases "\<exists>np. files sa (path_of (butlast ns)) = Some np \<and> type (heap sa np) = Directory")
    case False
    then have "rename n oldPath newPath s = Inr (False, sa)"
      unfolding r0 by (auto split: option.splits)
    moreover from False have "files sa (path_of (butlast ns)) = None
               \<or> (\<exists>np. files sa (path_of (butlast ns)) = Some np \<and> type (heap sa np) \<noteq> Directory)"
      by auto
    ultimately show ?thesis using inva gr dm ds by blast
  next
    case True
    then obtain np where np: "files sa (path_of (butlast ns)) = Some np"
      and npdir: "type (heap sa np) = Directory" by blast
    have srclt: "src < fresh s" using inv_lt [OF inv src] .
    have ty: "type (heap sa src) = type (heap s src)" using gr srclt by (simp add: grows_def)
    have npre: "\<not> prefix os ns"
    proof
      assume pr: "prefix os ns"
      have "os \<noteq> ns" using srca newa by auto
      with pr have "prefix os (butlast ns)" by (metis prefix_snoc bn(3))
      then obtain vs where vs: "butlast ns = os @ vs" by (auto simp: prefix_def)
      have "children (heap sa src) \<noteq> None"
      proof (cases vs rule: rev_cases)
        case Nil
        with vs np srca have "np = src" by simp
        with npdir inv_nodesD(4) [OF inva srca] show ?thesis by simp
      next
        case (snoc ws w)
        have v1: "list_all valid_name ((os @ [hd vs]) @ tl vs)" using bn(1) vs snoc by (cases vs) auto
        have "files sa (path_of ((os @ [hd vs]) @ tl vs)) \<noteq> None" using np vs snoc by (cases vs) auto
        from inv_prefix_closed [OF inva v1 this] obtain c where c: "files sa (path_of (os @ [hd vs])) = Some c"
          by auto
        have v2: "list_all valid_name (os @ [hd vs])" using v1 by simp
        from inv_upD(2) [OF inva v2 c] srca show ?thesis by auto
      qed
      with inv_nodesD(4) [OF inva srca] ty have "type (heap s src) = Directory" by simp
      with excl pr show False by simp
    qed
    have m: "move_ok sa os ns src op np"
      unfolding move_ok_def using inva vo vn one nne srca newa npre opa np npdir by simp
    note mp = move_parents [OF m]
    from mp(3) obtain cso' where cso': "children (heap sa op) = Some cso'" by blast
    from mp(4) obtain csn where csn: "children (heap sa np) = Some csn" by blast
    have r1: "rename n oldPath newPath s =
       (if type (heap sa src) = Directory \<and> children (heap sa src) \<noteq> None
        then (case updateChildrenPaths n src (relinked sa os ns src op np) of
               Inl e \<Rightarrow> Inl e
             | Inr sg \<Rightarrow> Inr (True, sg))
        else Inr (True, relinked sa os ns src op np))"
      unfolding r0 using np npdir cso' csn mp(1,2,5)
      by (auto simp: children_delete_def children_set_def relinked_def Let_def)
    have "rename n oldPath newPath s = Inr (True, renamed sa os ns src op np)"
    proof (cases "children (heap sa src)")
      case None
      have "desc sa os [] = {}"
        by (rule desc_leaf [OF inva _ _ None]) (use vo srca in simp_all)
      then have "renamed sa os ns src op np = relinked sa os ns src op np"
        by (simp add: renamed_def moved_empty)
      with None show ?thesis unfolding r1 by simp
    next
      case (Some cs)
      with inv_nodesD(4) [OF inva srca] have d: "type (heap sa src) = Directory" by simp
      have "updateChildrenPaths n src (moved {} sa os ns (relinked sa os ns src op np))
            = Inr (moved ({} \<union> desc sa os []) sa os ns (relinked sa os ns src op np))"
        by (rule ucp_moved [OF m _ _ _ _ _ n0 fa]) (use srca in simp_all)
      then have "updateChildrenPaths n src (relinked sa os ns src op np)
            = Inr (renamed sa os ns src op np)"
        by (simp add: moved_empty renamed_def)
      with Some d show ?thesis unfolding r1 by simp
    qed
    with m inva gr dm ds show ?thesis by blast
  qed
qed

section \<open>Clean paths\<close>

text \<open>
  A path is clean when its normal form is the root or does not end with a slash. The normal
  form of a clean path is the path of a list of names; by the invariant, every key of the
  table is such a path.
\<close>

definition clean_path :: "string \<Rightarrow> bool" where
  "clean_path p \<longleftrightarrow> normalizePath p = ''/'' \<or> \<not> endsWith (normalizePath p) ''/''"

lemma clean_slash_join:
  "\<not> sublist ''//'' (CHR ''/'' # r) \<Longrightarrow> r \<noteq> [] \<Longrightarrow> last r \<noteq> CHR ''/'' \<Longrightarrow>
   \<exists>ts. ts \<noteq> [] \<and> list_all valid_name ts \<and> CHR ''/'' # r = slash_join ts"
proof (induction "length r" arbitrary: r rule: less_induct)
  case less
  define k where "k = takeWhile (\<lambda>c. c \<noteq> CHR ''/'') r"
  define rest where "rest = dropWhile (\<lambda>c. c \<noteq> CHR ''/'') r"
  have r: "r = k @ rest" by (simp add: k_def rest_def)
  have "hd r \<noteq> CHR ''/''"
  proof
    assume "hd r = CHR ''/''"
    with less.prems(2) have "CHR ''/'' # r = [] @ ''//'' @ tl r" by (cases r) auto
    then have "sublist ''//'' (CHR ''/'' # r)" unfolding sublist_def by blast
    with less.prems(1) show False by simp
  qed
  with less.prems(2) have kne: "k \<noteq> []" by (cases r) (auto simp: k_def)
  have kv: "valid_name k"
    using kne by (auto simp: valid_name_def k_def dest: set_takeWhileD)
  show ?case
  proof (cases rest)
    case Nil
    with r kv have "CHR ''/'' # r = slash_join [k]" "list_all valid_name [k]" by simp_all
    then show ?thesis by blast
  next
    case (Cons c r')
    have "dropWhile (\<lambda>c. c \<noteq> CHR ''/'') r \<noteq> []" using Cons by (simp add: rest_def)
    from hd_dropWhile [OF this] have "c = CHR ''/''" using Cons by (simp add: rest_def)
    with Cons r have r2: "r = k @ CHR ''/'' # r'" by simp
    have ne: "r' \<noteq> []" using less.prems(3) r2 by auto
    have la: "last r' \<noteq> CHR ''/''" using less.prems(3) r2 ne by simp
    have "\<not> sublist ''//'' (CHR ''/'' # r')"
    proof
      assume "sublist ''//'' (CHR ''/'' # r')"
      then obtain ps ss where "CHR ''/'' # r' = ps @ ''//'' @ ss" unfolding sublist_def by blast
      then have "CHR ''/'' # r = (CHR ''/'' # k @ ps) @ ''//'' @ ss" using r2 by simp
      then have "sublist ''//'' (CHR ''/'' # r)" unfolding sublist_def by blast
      with less.prems(1) show False by simp
    qed
    moreover have "length r' < length r" using r2 by simp
    ultimately obtain ts where ts: "ts \<noteq> []" "list_all valid_name ts" "CHR ''/'' # r' = slash_join ts"
      using less.hyps [of r'] ne la by blast
    have "CHR ''/'' # r = slash_join (k # ts)" using r2 ts(3) by simp
    moreover have "list_all valid_name (k # ts)" using kv ts(2) by simp
    ultimately show ?thesis by blast
  qed
qed

lemma clean_path_segments:
  assumes "clean_path p"
  shows "\<exists>ts. list_all valid_name ts \<and> normalizePath p = path_of ts"
proof (cases "normalizePath p = ''/''")
  case True
  then have "list_all valid_name [] \<and> normalizePath p = path_of []" by (simp add: path_of_def)
  then show ?thesis by blast
next
  case False
  from normalizePath_starts_with_slash [of p] obtain r where r: "normalizePath p = CHR ''/'' # r"
    by (cases "normalizePath p") (auto simp: startsWith_def)
  with False have ne: "r \<noteq> []" by simp
  from assms False have "\<not> endsWith (normalizePath p) ''/''" by (simp add: clean_path_def)
  then have "last r \<noteq> CHR ''/''" using r ne by (simp add: endsWith_last)
  moreover have "\<not> sublist ''//'' (CHR ''/'' # r)" using normalizePath_no_double_slash [of p] r by simp
  ultimately obtain ts where "ts \<noteq> []" "list_all valid_name ts" "CHR ''/'' # r = slash_join ts"
    using clean_slash_join ne by blast
  then have "list_all valid_name ts \<and> normalizePath p = path_of ts" using r by (simp add: path_of_def)
  then show ?thesis by blast
qed

lemma clean_path_of: "list_all valid_name ts \<Longrightarrow> normalizePath p = path_of ts \<Longrightarrow> clean_path p"
  unfolding clean_path_def
  by (cases "ts = []") (simp_all add: path_of_def endsWith_last slash_join_last)

lemma slash_join_Nil_iff: "slash_join ts = [] \<longleftrightarrow> ts = []"
  by (cases ts) auto

lemma name_slash_eq:
  assumes "CHR ''/'' \<notin> set a" "CHR ''/'' \<notin> set b" "a @ x = b @ y"
    and "x = [] \<or> hd x = CHR ''/''" "y = [] \<or> hd y = CHR ''/''"
  shows "a = b \<and> x = y"
proof -
  have ta: "takeWhile (\<lambda>c. c \<noteq> CHR ''/'') (a @ x) = a"
    using assms(1,4) by (cases x) (auto simp: takeWhile_tail)
  have tb: "takeWhile (\<lambda>c. c \<noteq> CHR ''/'') (b @ y) = b"
    using assms(2,5) by (cases y) (auto simp: takeWhile_tail)
  from ta tb assms(3) have "a = b" by simp
  with assms(3) show ?thesis by simp
qed

lemma slash_join_hd: "slash_join ts = [] \<or> hd (slash_join ts) = CHR ''/''"
  by (cases ts) auto

lemma slash_join_prefix:
  "list_all valid_name os \<Longrightarrow> list_all valid_name xs \<Longrightarrow>
   slash_join xs = slash_join os @ suf \<Longrightarrow> suf = [] \<or> hd suf = CHR ''/'' \<Longrightarrow>
   \<exists>us. xs = os @ us \<and> suf = slash_join us"
proof (induction os arbitrary: xs)
  case Nil
  then show ?case by simp
next
  case (Cons a os)
  show ?case
  proof (cases xs)
    case Nil
    with Cons.prems(3) show ?thesis by simp
  next
    case (Cons b xs')
    with Cons.prems(3) have e: "b @ slash_join xs' = a @ (slash_join os @ suf)" by simp
    have "slash_join os @ suf = [] \<or> hd (slash_join os @ suf) = CHR ''/''"
      using slash_join_hd [of os] Cons.prems(4) by (cases "slash_join os") auto
    from name_slash_eq [OF _ _ e slash_join_hd this] Cons.prems(1,2) Cons
    have ab: "b = a" and r: "slash_join xs' = slash_join os @ suf" by (auto simp: valid_name_def)
    from Cons.IH [OF _ _ r Cons.prems(4)] Cons.prems(1,2) Cons
    obtain us where "xs' = os @ us" "suf = slash_join us" by auto
    with ab Cons show ?thesis by simp
  qed
qed

lemma path_of_prefix:
  assumes "list_all valid_name os" "os \<noteq> []" "list_all valid_name xs"
    "path_of xs = path_of os @ suf" "suf = [] \<or> startsWith suf ''/''"
  shows "\<exists>us. xs = os @ us \<and> list_all valid_name us \<and> suf = slash_join us"
proof -
  have h: "suf = [] \<or> hd suf = CHR ''/''" using assms(5) by (cases suf) (auto simp: startsWith_def)
  have "xs \<noteq> []"
  proof
    assume "xs = []"
    with assms(4) assms(2) have "''/'' = slash_join os @ suf" by (simp add: path_of_def)
    with assms(1,2) show False by (cases os) (auto simp: valid_name_def Cons_eq_append_conv)
  qed
  with assms have "slash_join xs = slash_join os @ suf" by (simp add: path_of_def)
  from slash_join_prefix [OF assms(1,3) this h] obtain us where "xs = os @ us" "suf = slash_join us"
    by blast
  moreover with assms(3) have "list_all valid_name us" by simp
  ultimately show ?thesis by blast
qed

lemma slash_join_startsWith: "slash_join us = [] \<or> startsWith (slash_join us) ''/''"
  by (cases us) (auto simp: startsWith_def)

lemma startsWith_append_slash: "startsWith (a @ CHR ''/'' # r) (a @ ''/'')"
  by (simp add: startsWith_def)

lemma path_of_below_startsWith:
  assumes "qs \<noteq> []" "us \<noteq> []"
  shows "startsWith (path_of (qs @ us)) (path_of qs @ ''/'')"
proof -
  from assms(2) obtain u us' where "us = u # us'" by (cases us) auto
  then have "path_of (qs @ us) = path_of qs @ CHR ''/'' # (u @ slash_join us')"
    using assms(1) by (simp add: path_of_def)
  then show ?thesis by (simp only: startsWith_append_slash)
qed

section \<open>Renaming a directory\<close>

text \<open>A directory \<open>/src\<close> beside a file \<open>/f\<close>.\<close>

definition fs_dir_and_file :: VirtualFileSystem where
  "fs_dir_and_file =
     state_after (createFile ''/f'' ''x''
       (state_after (createDirectory ''/src'' new_vfs)))"

lemma new_vfs_inv: "vfs_inv new_vfs"
proof -
  have p: "path_of ss = ''/'' \<Longrightarrow> list_all valid_name ss \<Longrightarrow> ss = []" for ss
    by (simp add: path_of_eq_root)
  have "inv_root new_vfs" by (simp add: inv_root_def new_vfs_def root_node_def)
  moreover have "finite (dom (files new_vfs))" by (simp add: new_vfs_def)
  moreover have "inv_nodes new_vfs"
    unfolding inv_nodes_def
    by (auto simp: new_vfs_def root_node_def split: if_splits intro: exI [of _ "[]"] simp: path_of_def)
  moreover have "inv_up new_vfs"
    unfolding inv_up_def
    by (auto simp: new_vfs_def split: if_splits dest: path_of_snoc_not_root)
  moreover have "inv_down new_vfs"
    unfolding inv_down_def
    by (auto simp: new_vfs_def root_node_def split: if_splits)
  ultimately show ?thesis by (simp add: vfs_inv_def)
qed

lemma state_after_createFile_inv:
  assumes "vfs_inv s" "clean_path p"
  shows "vfs_inv (state_after (createFile p c s))"
proof -
  from clean_path_segments [OF assms(2)] obtain ts where "list_all valid_name ts" "normalizePath p = path_of ts"
    by blast
  from createFile_inv [OF assms(1) this] obtain r s' where "createFile p c s = Inr (r, s')" "vfs_inv s'"
    by blast
  then show ?thesis by (simp add: state_after_def)
qed

lemma state_after_createDirectory_inv:
  assumes "vfs_inv s" "clean_path p"
  shows "vfs_inv (state_after (createDirectory p s))"
proof -
  from clean_path_segments [OF assms(2)] obtain ts where "list_all valid_name ts" "normalizePath p = path_of ts"
    by blast
  from createDirectory_inv [OF assms(1) this] obtain r s' where "createDirectory p s = Inr (r, s')" "vfs_inv s'"
    by blast
  then show ?thesis by (simp add: state_after_def)
qed

lemma fs_src_tree_inv: "vfs_inv fs_src_tree"
  unfolding fs_src_tree_def
  by (intro state_after_createFile_inv new_vfs_inv)
     (simp_all add: clean_path_def normalizePath_def startsWith_def endsWith_def)

text \<open>
  Claim C2, with the hypotheses under which it holds. The tree satisfies the invariant of the
  two indices; \<open>oldPath\<close> names a directory other than the root; \<open>newPath\<close> is clean, is not
  the root, does not exist and is not inside the subtree of \<open>oldPath\<close>; every node that
  exists above \<open>newPath\<close> is a directory; the depth budget \<open>n\<close> exceeds the length of every
  stored path and of the new path. Then \<open>rename\<close> returns \<open>true\<close>, the invariant holds
  afterwards, no path at or below \<open>oldPath\<close> is left in the table, and every node that was at
  \<open>oldPath + suffix\<close> is at \<open>newPath + suffix\<close>, with the same type and content and with that
  path stored in it.
\<close>

theorem rename_moves_subtree:
  assumes inv: "vfs_inv s"
    and src: "getNode s oldPath = Some src" and dir: "type (heap s src) = Directory"
    and oroot: "normalizePath oldPath \<noteq> ''/''"
    and cl: "clean_path newPath" and nroot: "normalizePath newPath \<noteq> ''/''"
    and new: "getNode s newPath = None"
    and out: "\<not> startsWith (normalizePath newPath) (normalizePath oldPath @ ''/'')"
    and anc: "\<forall>q a. files s q = Some a \<longrightarrow> startsWith (normalizePath newPath) (q @ ''/'')
                \<longrightarrow> type (heap s a) = Directory"
    and fuel: "\<forall>x\<in>dom (files s). length x < n" "length (normalizePath newPath) < n"
  shows "\<exists>s'. rename n oldPath newPath s = Inr (True, s') \<and> vfs_inv s'
      \<and> (\<forall>x. x = normalizePath oldPath \<or> startsWith x (normalizePath oldPath @ ''/'')
              \<longrightarrow> files s' x = None)
      \<and> (\<forall>suf a. (suf = [] \<or> startsWith suf ''/'') \<longrightarrow>
            files s (normalizePath oldPath @ suf) = Some a \<longrightarrow>
            files s' (normalizePath newPath @ suf) = Some a
            \<and> type (heap s' a) = type (heap s a) \<and> content (heap s' a) = content (heap s a)
            \<and> path (heap s' a) = normalizePath newPath @ suf)"
proof -
  have srcf: "files s (normalizePath oldPath) = Some src" using src by (simp add: getNode_def)
  from inv_nodesD(3) [OF inv srcf] obtain os where vo: "list_all valid_name os"
    and no: "normalizePath oldPath = path_of os" by blast
  from clean_path_segments [OF cl] obtain ns where vn: "list_all valid_name ns"
    and nn: "normalizePath newPath = path_of ns" by blast
  have one: "os \<noteq> []" using oroot no by (auto simp: path_of_def)
  have nne: "ns \<noteq> []" using nroot nn by (auto simp: path_of_def)
  have srcs: "files s (path_of os) = Some src" using srcf no by simp
  have news: "files s (path_of ns) = None" using new nn by (simp add: getNode_def)
  have npre: "\<not> prefix os ns"
  proof
    assume "prefix os ns"
    then obtain vs where vs: "ns = os @ vs" by (auto simp: prefix_def)
    have "vs \<noteq> []" using vs srcs news by auto
    from path_of_below_startsWith [OF one this] out show False by (simp add: nn no vs)
  qed
  have dirs: "\<forall>i a. i \<le> length (butlast ns) \<longrightarrow> files s (path_of (take i (butlast ns))) = Some a
              \<longrightarrow> type (heap s a) = Directory"
  proof (intro allI impI)
    fix i a assume i: "i \<le> length (butlast ns)" and a: "files s (path_of (take i (butlast ns))) = Some a"
    show "type (heap s a) = Directory"
    proof (cases i)
      case 0
      with a inv_root_exists [OF inv] have "a = root s" by simp
      with inv_D(1) [OF inv] show ?thesis by (simp add: inv_root_def)
    next
      case (Suc j)
      have il: "i < length ns" using i nne by (cases ns rule: rev_cases) auto
      then have tb: "take i (butlast ns) = take i ns" by (simp add: take_butlast)
      have t1: "take i ns \<noteq> []" using Suc nne by auto
      have t2: "drop i ns \<noteq> []" using il by simp
      from path_of_below_startsWith [OF t1 t2]
      have "startsWith (normalizePath newPath) (path_of (take i ns) @ ''/'')" by (simp add: nn)
      with anc a tb show ?thesis by auto
    qed
  qed
  from rename_run [OF inv vo vn no nn one nne srcs news _ fuel(1)] npre fuel(2) nn dirs
  obtain sa where inva: "vfs_inv sa" and gr: "grows s sa"
    and ok: "\<exists>a. files sa (path_of (butlast ns)) = Some a \<and> type (heap sa a) = Directory"
    and alt: "(\<exists>op np. move_ok sa os ns src op np
              \<and> rename n oldPath newPath s = Inr (True, renamed sa os ns src op np))
         \<or> ((files sa (path_of (butlast ns)) = None
               \<or> (\<exists>np. files sa (path_of (butlast ns)) = Some np \<and> type (heap sa np) \<noteq> Directory))
             \<and> rename n oldPath newPath s = Inr (False, sa))"
    by auto
  from ok alt obtain op np where m: "move_ok sa os ns src op np"
    and r: "rename n oldPath newPath s = Inr (True, renamed sa os ns src op np)" by auto
  let ?R = "renamed sa os ns src op np"
  have invr: "vfs_inv ?R" by (rule inv_renamed [OF m])
  have gone: "files ?R x = None" if x: "x = normalizePath oldPath \<or> startsWith x (normalizePath oldPath @ ''/'')" for x
  proof (rule ccontr)
    assume "files ?R x \<noteq> None"
    then obtain a where a: "files ?R x = Some a" by auto
    from inv_nodesD(3) [OF invr a] obtain xs where vx: "list_all valid_name xs" and xx: "x = path_of xs"
      by blast
    have "prefix os xs"
    proof (cases "x = normalizePath oldPath")
      case True
      then have "xs = os" using vx vo xx no by (simp add: path_of_inj_iff)
      then show ?thesis by simp
    next
      case False
      with x have "startsWith x (path_of os @ ''/'')" by (simp add: no)
      then have "x = path_of os @ (CHR ''/'' # drop (Suc (length (path_of os))) x)"
        unfolding startsWith_def
        by (metis append_take_drop_id length_append_singleton append_Cons append_Nil append_assoc)
      from path_of_prefix [OF vo one vx this [unfolded xx]]
      show ?thesis by (auto simp: startsWith_def)
    qed
    moreover have "\<not> prefix ns xs"
    proof
      assume "prefix ns xs"
      with \<open>prefix os xs\<close> have "prefix os ns \<or> prefix ns os" by (metis prefix_same_cases)
      with npre move_not_prefix_rev [OF m] show False by blast
    qed
    ultimately have "files ?R (path_of xs) = None" by (simp add: renamed_files [OF m vx])
    with a xx show False by simp
  qed
  have kept: "files ?R (normalizePath newPath @ suf) = Some a
            \<and> type (heap ?R a) = type (heap s a) \<and> content (heap ?R a) = content (heap s a)
            \<and> path (heap ?R a) = normalizePath newPath @ suf"
    if suf: "suf = [] \<or> startsWith suf ''/''" and a: "files s (normalizePath oldPath @ suf) = Some a"
    for suf a
  proof -
    from inv_nodesD(3) [OF inv a] obtain xs where vx: "list_all valid_name xs"
      and xx: "path_of os @ suf = path_of xs" by (auto simp: no)
    from path_of_prefix [OF vo one vx xx [symmetric] suf] obtain us where us: "xs = os @ us"
      "list_all valid_name us" "suf = slash_join us" by blast
    have e: "normalizePath newPath @ suf = path_of (ns @ us)" using us(3) nne by (simp add: nn path_of_def)
    have "files s (path_of (os @ us)) = Some a" using a xx us(1) by (simp add: no)
    then have fa: "files sa (path_of (os @ us)) = Some a"
      using gr by (auto simp: grows_def map_le_def dom_def)
    have vnu: "list_all valid_name (ns @ us)" using vn us(2) by simp
    have f: "files ?R (path_of (ns @ us)) = Some a" using fa by (simp add: renamed_files [OF m vnu])
    have lt: "a < fresh s" by (rule inv_lt [OF inv a])
    have "type (heap ?R a) = type (heap s a)" "content (heap ?R a) = content (heap s a)"
      using gr lt by (simp_all add: renamed_fields [OF m] grows_def)
    moreover have "path (heap ?R a) = path_of (ns @ us)" by (rule inv_nodesD(2) [OF invr f])
    ultimately show ?thesis using f e by simp
  qed
  from r invr gone kept show ?thesis by blast
qed

text \<open>
  The directory-rename test: \<open>rename("/src", "/app")\<close> on the tree of \<open>/src/index.ts\<close> and
  \<open>/src/components/Button.tsx\<close>.
\<close>

theorem rename_moves_subtree_witness:
  "vfs_inv fs_src_tree \<and> getNode fs_src_tree ''/src'' = Some 1
   \<and> type (heap fs_src_tree 1) = Directory \<and> getNode fs_src_tree ''/app'' = None
   \<and> files fs_src_tree ''/src/index.ts'' = Some 2
   \<and> files fs_src_tree ''/src/components/Button.tsx'' = Some 4
   \<and> (\<exists>s'. rename 30 ''/src'' ''/app'' fs_src_tree = Inr (True, s')
        \<and> files s' ''/src'' = None \<and> files s' ''/src/index.ts'' = None
        \<and> files s' ''/src/components/Button.tsx'' = None
        \<and> files s' ''/app/index.ts'' = Some 2 \<and> type (heap s' 2) = File
        \<and> content (heap s' 2) = Some ''index content''
        \<and> files s' ''/app/components/Button.tsx'' = Some 4 \<and> type (heap s' 4) = File
        \<and> content (heap s' 4) = Some ''button content'')"
proof -
  note ev = fs_src_tree_def vfs_eval
  have np: "normalizePath ''/src'' = ''/src''" "normalizePath ''/app'' = ''/app''"
    by (simp_all add: normalizePath_def startsWith_def endsWith_def)
  have h1: "getNode fs_src_tree ''/src'' = Some 1" by (simp add: ev)
  have h2: "type (heap fs_src_tree 1) = Directory" by (simp add: ev)
  have h3: "normalizePath ''/src'' \<noteq> ''/''" by (simp add: np)
  have h4: "clean_path ''/app''" by (simp add: clean_path_def np endsWith_def)
  have h5: "normalizePath ''/app'' \<noteq> ''/''" by (simp add: np)
  have h6: "getNode fs_src_tree ''/app'' = None" by (simp add: ev)
  have h7: "\<not> startsWith (normalizePath ''/app'') (normalizePath ''/src'' @ ''/'')"
    by (simp add: np startsWith_def)
  have h8: "\<forall>q a. files fs_src_tree q = Some a \<longrightarrow> startsWith (normalizePath ''/app'') (q @ ''/'')
                \<longrightarrow> type (heap fs_src_tree a) = Directory"
    by (auto simp: ev split: if_splits)
  have h9: "\<forall>x\<in>dom (files fs_src_tree). length x < 30"
    by (auto simp: ev split: if_splits)
  have h10: "length (normalizePath ''/app'') < 30" by (simp add: np)
  have f1: "files fs_src_tree ''/src/index.ts'' = Some 2" by (simp add: ev)
  have f2: "files fs_src_tree ''/src/components/Button.tsx'' = Some 4" by (simp add: ev)
  have c1: "type (heap fs_src_tree 2) = File" "content (heap fs_src_tree 2) = Some ''index content''"
    "type (heap fs_src_tree 4) = File" "content (heap fs_src_tree 4) = Some ''button content''"
    by (simp_all add: ev)
  from rename_moves_subtree [OF fs_src_tree_inv h1 h2 h3 h4 h5 h6 h7 h8 h9 h10, unfolded np]
  obtain s' where r: "rename 30 ''/src'' ''/app'' fs_src_tree = Inr (True, s')"
    and g: "\<forall>x. x = ''/src'' \<or> startsWith x (''/src'' @ ''/'') \<longrightarrow> files s' x = None"
    and k0: "\<forall>suf a. (suf = [] \<or> startsWith suf ''/'') \<longrightarrow>
            files fs_src_tree (''/src'' @ suf) = Some a \<longrightarrow>
            files s' (''/app'' @ suf) = Some a
            \<and> type (heap s' a) = type (heap fs_src_tree a) \<and> content (heap s' a) = content (heap fs_src_tree a)
            \<and> path (heap s' a) = ''/app'' @ suf"
    by blast
  have k: "files s' (''/app'' @ suf) = Some a
            \<and> type (heap s' a) = type (heap fs_src_tree a) \<and> content (heap s' a) = content (heap fs_src_tree a)"
    if "startsWith suf ''/''" "files fs_src_tree (''/src'' @ suf) = Some a" for suf a
    using k0 that by blast
  have g1: "files s' ''/src'' = None" using g by simp
  have g2: "files s' ''/src/index.ts'' = None" using g by (simp add: startsWith_def)
  have g3: "files s' ''/src/components/Button.tsx'' = None" using g by (simp add: startsWith_def)
  from k [of "''/index.ts''" 2] f1 c1
  have k1: "files s' ''/app/index.ts'' = Some 2" "type (heap s' 2) = File"
    "content (heap s' 2) = Some ''index content''" by (simp_all add: startsWith_def)
  from k [of "''/components/Button.tsx''" 4] f2 c1
  have k2: "files s' ''/app/components/Button.tsx'' = Some 4" "type (heap s' 4) = File"
    "content (heap s' 4) = Some ''button content''" by (simp_all add: startsWith_def)
  from r g1 g2 g3 k1 k2 have "\<exists>s'. rename 30 ''/src'' ''/app'' fs_src_tree = Inr (True, s')
        \<and> files s' ''/src'' = None \<and> files s' ''/src/index.ts'' = None
        \<and> files s' ''/src/components/Button.tsx'' = None
        \<and> files s' ''/app/index.ts'' = Some 2 \<and> type (heap s' 2) = File
        \<and> content (heap s' 2) = Some ''index content''
        \<and> files s' ''/app/components/Button.tsx'' = Some 4 \<and> type (heap s' 4) = File
        \<and> content (heap s' 4) = Some ''button content''" by blast
  with fs_src_tree_inv h1 h2 h6 f1 f2 show ?thesis by blast
qed

text \<open>
  Without the hypothesis on the nodes above \<open>newPath\<close>, claim C2 fails: \<open>/f/x\<close> does not
  exist, is not the root and is not inside \<open>/src\<close>, but its parent \<open>/f\<close> is a file, and
  \<open>rename("/src", "/f/x")\<close> returns \<open>false\<close> and changes nothing.
\<close>

theorem rename_into_file_rejected:
  "getNode fs_dir_and_file ''/src'' = Some 1 \<and> type (heap fs_dir_and_file 1) = Directory
   \<and> getNode fs_dir_and_file ''/f'' = Some 2 \<and> type (heap fs_dir_and_file 2) = File
   \<and> getNode fs_dir_and_file ''/f/x'' = None \<and> normalizePath ''/f/x'' = ''/f/x''
   \<and> normalizePath ''/src'' = ''/src'' \<and> \<not> startsWith ''/f/x'' ''/src/''
   \<and> (\<forall>n. rename n ''/src'' ''/f/x'' fs_dir_and_file = Inr (False, fs_dir_and_file))"
  by (simp add: fs_dir_and_file_def rename_def vfs_eval)

end
